theory Spec2Isabelle
  imports Main "HOL-Library.Word" "HOL-Library.AList"
begin

section \<open>Objects, pointers and the store\<close>

text \<open>
  The autograd core works on heap objects that reference each other through
  \<^verbatim>\<open>shared_ptr\<close>, \<^verbatim>\<open>weak_ptr\<close> and \<^verbatim>\<open>unique_ptr\<close>. An object is an address
  in a store; a pointer that may be null is an \<open>addr option\<close>. A \<^verbatim>\<open>weak_ptr\<close> is an
  address together with the liveness set of the store: it has expired when it is null or
  its target is no longer alive. Addresses are handed out by a counter and never reused.
\<close>

type_synonym addr = nat

datatype error =
    VariableDataNull          \<comment> \<open>\<^verbatim>\<open>runtime_error("Variable data is NULL")\<close>\<close>
  | InplaceModified           \<comment> \<open>\<^verbatim>\<open>runtime_error("one of the variables needed ... inplace operation")\<close>\<close>
  | NoGradAccumulator         \<comment> \<open>\<^verbatim>\<open>logic_error("No grad accumulator for a saved leaf!")\<close>\<close>
  | AccumulateGradArity       \<comment> \<open>\<^verbatim>\<open>runtime_error("AccumulateGrad expects exactly 1 input")\<close>\<close>
  | LeafMovedIntoGraph        \<comment> \<open>\<^verbatim>\<open>logic_error("leaf variable has been moved into the graph interior")\<close>\<close>
  | LeafModifiedInplace       \<comment> \<open>\<^verbatim>\<open>runtime_error("leaf variable was used in an inplace operation")\<close>\<close>
  | AccumulatorRebound        \<comment> \<open>\<^verbatim>\<open>logic_error("AccumulateGrad's variable is not bound to it")\<close>\<close>
  | InvalidOutputCount addr nat nat
                              \<comment> \<open>\<^verbatim>\<open>"Function ... returned an invalid number of outputs"\<close>: function, expected, got\<close>
  | DependencyNotFound addr   \<comment> \<open>\<^verbatim>\<open>runtime_error("dependency not found for " + name)\<close>\<close>
  | NoExecutableRoots         \<comment> \<open>\<^verbatim>\<open>"there are no graph nodes that require computing gradients"\<close>\<close>
  | UncomputedDependencies    \<comment> \<open>\<^verbatim>\<open>"could not compute gradients for some functions"\<close>\<close>
  | UserError nat             \<comment> \<open>any exception thrown by a user-supplied \<^verbatim>\<open>apply\<close> or hook\<close>
  | UndefinedBehaviour        \<comment> \<open>the source dereferences a null pointer or indexes past the end here\<close>

text \<open>
  Modelled from the spec: the tensor library is opaque; the core needs only shallow clone,
  element-wise addition, the sparse/dense predicate and the device identity. A tensor
  value is a handle on an element storage; a shallow clone is a new handle on the same
  storage. Elements are integers here.
\<close>

record tensor =
  storage :: addr
  is_sparse :: bool
  device :: int

definition clone_shallow :: "tensor \<Rightarrow> tensor" where
  "clone_shallow t = \<lparr> storage = storage t, is_sparse = is_sparse t, device = device t \<rparr>"

text \<open>
  \<^verbatim>\<open>struct Function\<close> of function.h, the data members. \<^verbatim>\<open>num_inputs\<close> is a C++ \<^verbatim>\<open>int\<close>, a
  32-bit word read as a signed number. Hooks are pointers to hook objects.
\<close>

record Function =
  num_inputs :: "32 word"
  next_functions :: "(addr option \<times> int) list"
  is_executable :: bool
  is_stochastic :: bool
  pre_hooks :: "addr list"
  post_hooks :: "addr list"

text \<open>\<^verbatim>\<open>struct FunctionFlags\<close> of function.h, with its default member initialisers.\<close>

record FunctionFlags =
  ff_is_executable :: bool
  ff_is_volatile :: bool
  ff_next_functions :: "(addr option \<times> int) list"

definition FunctionFlags_default :: FunctionFlags where
  "FunctionFlags_default =
     \<lparr> ff_is_executable = False, ff_is_volatile = False, ff_next_functions = [] \<rparr>"

text \<open>\<^verbatim>\<open>Function::Function()\<close>.\<close>

definition Function_default :: Function where
  "Function_default =
     \<lparr> num_inputs = 0, next_functions = [], is_executable = False, is_stochastic = False,
       pre_hooks = [], post_hooks = [] \<rparr>"

text \<open>\<^verbatim>\<open>Function::Function(FunctionFlags&& flags)\<close>: the volatile flag is not kept.\<close>

definition Function_of_flags :: "FunctionFlags \<Rightarrow> Function" where
  "Function_of_flags flags =
     \<lparr> num_inputs = 0, next_functions = ff_next_functions flags,
       is_executable = ff_is_executable flags, is_stochastic = False,
       pre_hooks = [], post_hooks = [] \<rparr>"

text \<open>\<^verbatim>\<open>Function::set_flags\<close>.\<close>

definition set_flags :: "FunctionFlags \<Rightarrow> Function \<Rightarrow> Function" where
  "set_flags flags f =
     f\<lparr> is_executable := ff_is_executable flags, next_functions := ff_next_functions flags \<rparr>"

text \<open>
  The members that \<^verbatim>\<open>AccumulateGrad\<close> adds to \<^verbatim>\<open>Function\<close>: two weak pointers to
  Variables.
\<close>

record AccumulateGrad_members =
  variable :: "addr option"
  variable_grad :: "addr option"

text \<open>
  \<^verbatim>\<open>struct Variable\<close>, the members the constructors of variable.cpp initialise.
  \<^verbatim>\<open>output_nr\<close> is a C++ \<^verbatim>\<open>int\<close> like \<^verbatim>\<open>num_inputs\<close>.
\<close>

record Variable =
  data :: "tensor option"
  grad_fn :: "addr option"
  grad :: "addr option"
  version_counter :: addr
  requires_grad :: bool
  is_volatile :: bool
  output_nr :: "32 word"
  grad_accumulator :: "addr option"
  hooks :: "addr list"

text \<open>\<^verbatim>\<open>struct SavedVariable\<close>, the members \<^verbatim>\<open>unpack\<close> reads.\<close>

record SavedVariable =
  sv_data :: "tensor option"
  sv_version :: addr
  sv_expected_version :: int
  sv_requires_grad :: bool
  sv_is_volatile :: bool
  sv_grad_fn :: "addr option"
  sv_weak_grad_fn :: "addr option"
  sv_grad_accumulator :: "addr option"

record store =
  vars :: "addr \<Rightarrow> Variable"
  var_alive :: "addr set"
  var_next :: addr
  fns :: "addr \<Rightarrow> Function"
  acc_members :: "addr \<Rightarrow> AccumulateGrad_members"
  fn_alive :: "addr set"
  fn_next :: addr
  versions :: "addr \<Rightarrow> int"
  ver_next :: addr
  storages :: "addr \<Rightarrow> int list"
  sto_next :: addr

text \<open>\<^verbatim>\<open>weak_ptr::expired\<close> and \<^verbatim>\<open>weak_ptr::lock\<close> for pointers to Functions and to Variables.\<close>

definition fn_expired :: "store \<Rightarrow> addr option \<Rightarrow> bool" where
  "fn_expired st w = (case w of None \<Rightarrow> True | Some p \<Rightarrow> p \<notin> fn_alive st)"

definition fn_lock :: "store \<Rightarrow> addr option \<Rightarrow> addr option" where
  "fn_lock st w = (if fn_expired st w then None else w)"

definition var_expired :: "store \<Rightarrow> addr option \<Rightarrow> bool" where
  "var_expired st w = (case w of None \<Rightarrow> True | Some p \<Rightarrow> p \<notin> var_alive st)"

definition var_lock :: "store \<Rightarrow> addr option \<Rightarrow> addr option" where
  "var_lock st w = (if var_expired st w then None else w)"

text \<open>
  Modelled from the spec: \<^verbatim>\<open>VariableVersion\<close> (variable.h) is a shared integer with a
  \<^verbatim>\<open>join_with\<close> operation that makes two counters alias. A counter is the address of its
  version block; \<^verbatim>\<open>new VariableVersion()\<close> takes a fresh block holding 0, reading the
  counter reads the block, and joining replaces the block address by the other one.
\<close>

definition new_VariableVersion :: "store \<Rightarrow> addr \<times> store" where
  "new_VariableVersion st =
     (ver_next st,
      st\<lparr> versions := (versions st)(ver_next st := 0), ver_next := Suc (ver_next st) \<rparr>)"

definition version_value :: "store \<Rightarrow> addr \<Rightarrow> int" where
  "version_value st c = versions st c"

definition join_with :: "addr \<Rightarrow> Variable \<Rightarrow> Variable" where
  "join_with other v = v\<lparr> version_counter := other \<rparr>"

section \<open>Variable\<close>

text \<open>
  \<^verbatim>\<open>Variable::Variable(data, requires_grad, is_volatile)\<close>. The member initialisers run
  first, then the body throws when the tensor is null; the version block of a Variable
  whose construction failed is released with it, so the store is the one before.
\<close>

definition Variable_ctor ::
  "tensor option \<Rightarrow> bool \<Rightarrow> bool \<Rightarrow> store \<Rightarrow> (error + Variable) \<times> store" where
  "Variable_ctor d rg vol st =
     (let (vc, st1) = new_VariableVersion st;
          this = \<lparr> data = d, grad_fn = None, grad = None, version_counter = vc,
                   requires_grad = rg, is_volatile = vol, output_nr = 0,
                   grad_accumulator = None, hooks = [] \<rparr>
      in if data this = None then (Inl VariableDataNull, st) else (Inr this, st1))"

text \<open>
  \<^verbatim>\<open>Variable::Variable(data, grad_fn)\<close>. The initialisers of \<^verbatim>\<open>requires_grad\<close> and
  \<^verbatim>\<open>output_nr\<close> dereference \<^verbatim>\<open>grad_fn\<close> before the body looks at the tensor, so a null
  \<^verbatim>\<open>grad_fn\<close> is a null dereference whatever the tensor is. The initialiser of
  \<^verbatim>\<open>output_nr\<close> is \<^verbatim>\<open>grad_fn->num_inputs++\<close>: it updates the shared Function before the body
  runs, so the increment stays when the body throws; on a 32-bit \<^verbatim>\<open>int\<close> the increment of
  2147483647 wraps around to -2147483648.
\<close>

definition Variable_ctor_grad_fn ::
  "tensor option \<Rightarrow> addr option \<Rightarrow> store \<Rightarrow> (error + Variable) \<times> store" where
  "Variable_ctor_grad_fn d grad_fn_p st =
     (case grad_fn_p of
        None \<Rightarrow> (Inl UndefinedBehaviour, st)
      | Some gf \<Rightarrow>
          let (vc, st1) = new_VariableVersion st;
              f = fns st1 gf;
              st2 = st1\<lparr> fns := (fns st1)(gf := f\<lparr> num_inputs := num_inputs f + 1 \<rparr>) \<rparr>;
              this = \<lparr> data = d, grad_fn = Some gf, grad = None, version_counter = vc,
                       requires_grad = is_executable f, is_volatile = False,
                       output_nr = num_inputs f,
                       grad_accumulator = None, hooks = [] \<rparr>
          in if data this = None
             then (Inl VariableDataNull,
                   st\<lparr> fns := (fns st)(gf := f\<lparr> num_inputs := num_inputs f + 1 \<rparr>) \<rparr>)
             else (Inr this, st2))"

text \<open>\<^verbatim>\<open>std::make_shared<Variable>(...)\<close>: the constructed object gets a fresh address.\<close>

definition make_shared_Variable :: "Variable \<Rightarrow> store \<Rightarrow> addr \<times> store" where
  "make_shared_Variable v st =
     (var_next st,
      st\<lparr> vars := (vars st)(var_next st := v),
          var_alive := insert (var_next st) (var_alive st),
          var_next := Suc (var_next st) \<rparr>)"

text \<open>
  \<^verbatim>\<open>AccumulateGrad::AccumulateGrad(_variable)\<close> under \<^verbatim>\<open>std::make_shared\<close>: the base
  constructor \<^verbatim>\<open>Function()\<close> runs, then the body sets the two fields.
\<close>

definition make_shared_AccumulateGrad :: "addr \<Rightarrow> store \<Rightarrow> addr \<times> store" where
  "make_shared_AccumulateGrad v st =
     (fn_next st,
      st\<lparr> fns := (fns st)(fn_next st :=
                   Function_default\<lparr> is_executable := requires_grad (vars st v),
                                     num_inputs := 1 \<rparr>),
          acc_members := (acc_members st)(fn_next st :=
                   \<lparr> variable = Some v, variable_grad = grad (vars st v) \<rparr>),
          fn_alive := insert (fn_next st) (fn_alive st),
          fn_next := Suc (fn_next st) \<rparr>)"

text \<open>
  \<^verbatim>\<open>Variable::get_grad_accumulator\<close> on the Variable at address \<open>this\<close>. The second
  \<^verbatim>\<open>lock()\<close> under the mutex sees what the first one saw when no other thread runs.
\<close>

definition get_grad_accumulator :: "addr \<Rightarrow> store \<Rightarrow> addr option \<times> store" where
  "get_grad_accumulator this st =
     (let v = vars st this in
      if grad_fn v \<noteq> None then (None, st)
      else if \<not> requires_grad v then (None, st)
      else case fn_lock st (grad_accumulator v) of
             Some result \<Rightarrow> (Some result, st)
           | None \<Rightarrow>
               (case fn_lock st (grad_accumulator v) of
                  Some result \<Rightarrow> (Some result, st)
                | None \<Rightarrow>
                    let (result, st1) = make_shared_AccumulateGrad this st
                    in (Some result,
                        st1\<lparr> vars := (vars st1)(this :=
                               (vars st1 this)\<lparr> grad_accumulator := Some result \<rparr>) \<rparr>)))"

text \<open>
  The last \<^verbatim>\<open>shared_ptr\<close> to a Function goes away: the object is destroyed and every
  \<^verbatim>\<open>weak_ptr\<close> to it expires.
\<close>

definition release_Function :: "addr \<Rightarrow> store \<Rightarrow> store" where
  "release_Function p st = st\<lparr> fn_alive := fn_alive st - {p} \<rparr>"

section \<open>SavedVariable\<close>

text \<open>
  \<^verbatim>\<open>SavedVariable::unpack\<close>. The result is the pointer to the new Variable (null when no
  data was saved). When the leaf check throws, the local \<^verbatim>\<open>new_var\<close> is destroyed and the
  store is the one before the call.
\<close>

definition unpack :: "SavedVariable \<Rightarrow> store \<Rightarrow> (error + addr option) \<times> store" where
  "unpack sv st =
     (case sv_data sv of
        None \<Rightarrow> (Inr None, st)
      | Some d \<Rightarrow>
          let current_version = version_value st (sv_version sv) in
          if sv_expected_version sv \<noteq> current_version then (Inl InplaceModified, st)
          else
            case Variable_ctor (Some (clone_shallow d)) (sv_requires_grad sv)
                   (sv_is_volatile sv) st of
              (Inl e, st1) \<Rightarrow> (Inl e, st1)
            | (Inr v0, st1) \<Rightarrow>
                let v1 = (if sv_grad_fn sv = None \<and> \<not> fn_expired st1 (sv_weak_grad_fn sv)
                          then v0\<lparr> grad_fn := fn_lock st1 (sv_weak_grad_fn sv) \<rparr>
                          else v0\<lparr> grad_fn := sv_grad_fn sv \<rparr>);
                    v2 = join_with (sv_version sv) v1
                in if sv_requires_grad sv \<and> sv_grad_fn sv = None
                      \<and> fn_expired st1 (sv_weak_grad_fn sv)
                      \<and> fn_expired st1 (sv_grad_accumulator sv)
                   then (Inl NoGradAccumulator, st)
                   else
                     let v3 = v2\<lparr> grad_accumulator := sv_grad_accumulator sv \<rparr>;
                         (new_var, st2) = make_shared_Variable v3 st1
                     in (Inr (Some new_var), st2))"

section \<open>AccumulateGrad\<close>

text \<open>
  Modelled from the spec: the tensor operations \<^verbatim>\<open>newTensor\<close> (a fresh empty tensor of the
  same type and device) and \<^verbatim>\<open>cadd\<close> (element-wise addition into the receiver), which
  belong to the tensor library.
\<close>

definition newTensor :: "tensor \<Rightarrow> store \<Rightarrow> tensor \<times> store" where
  "newTensor t st =
     (\<lparr> storage = sto_next st, is_sparse = is_sparse t, device = device t \<rparr>,
      st\<lparr> storages := (storages st)(sto_next st := []), sto_next := Suc (sto_next st) \<rparr>)"

definition cadd :: "tensor \<Rightarrow> tensor \<Rightarrow> tensor \<Rightarrow> store \<Rightarrow> store" where
  "cadd dst a b st =
     st\<lparr> storages := (storages st)(storage dst :=
            map2 (+) (storages st (storage a)) (storages st (storage b))) \<rparr>"

text \<open>
  \<^verbatim>\<open>AccumulateGrad::acc_inplace\<close> on the Variables at \<open>grad\<close> and \<open>new_grad\<close>.
\<close>

definition acc_inplace :: "addr \<Rightarrow> addr \<Rightarrow> store \<Rightarrow> error option \<times> store" where
  "acc_inplace grad_p new_grad_p st =
     (case (data (vars st grad_p), data (vars st new_grad_p)) of
        (Some grad_data, Some new_grad_data) \<Rightarrow>
          if is_sparse grad_data \<and> \<not> is_sparse new_grad_data
          then
            let (result, st1) = newTensor new_grad_data st;
                st2 = cadd result new_grad_data grad_data st1
            in (None, st2\<lparr> vars := (vars st2)(grad_p :=
                               (vars st2 grad_p)\<lparr> data := Some result \<rparr>) \<rparr>)
          else (None, cadd grad_data grad_data new_grad_data st)
      | _ \<Rightarrow> (Some UndefinedBehaviour, st))"

text \<open>\<^verbatim>\<open>std::make_shared\<close> of a Function subclass without members of its own.\<close>

definition make_shared_Function :: "store \<Rightarrow> addr \<times> store" where
  "make_shared_Function st =
     (fn_next st,
      st\<lparr> fns := (fns st)(fn_next st := Function_default),
          fn_alive := insert (fn_next st) (fn_alive st),
          fn_next := Suc (fn_next st) \<rparr>)"

text \<open>
  Modelled from the spec: \<^verbatim>\<open>Clone::apply\<close> and \<^verbatim>\<open>Add::apply\<close> (functions/tensor.cpp and
  basic_ops.cpp). \<^verbatim>\<open>Clone\<close> takes one Variable and returns a new Variable that never
  aliases it: its data is a new tensor on a new storage with the same elements. \<^verbatim>\<open>Add\<close>
  takes two Variables and returns a new Variable holding their element-wise sum. The
  outputs inherit volatility from the inputs; the backward nodes the outputs would carry
  are left out.
\<close>

definition Clone_apply :: "addr option list \<Rightarrow> store \<Rightarrow> (error + addr option list) \<times> store" where
  "Clone_apply ins st =
     (case ins of
        [Some x] \<Rightarrow>
          (case data (vars st x) of
             None \<Rightarrow> (Inl UndefinedBehaviour, st)
           | Some t \<Rightarrow>
               let (copy, st1) = newTensor t st;
                   st2 = st1\<lparr> storages := (storages st1)(storage copy := storages st1 (storage t)) \<rparr>
               in case Variable_ctor (Some copy) (requires_grad (vars st2 x))
                         (is_volatile (vars st2 x)) st2 of
                    (Inl err, st3) \<Rightarrow> (Inl err, st3)
                  | (Inr v, st3) \<Rightarrow>
                      let (p, st4) = make_shared_Variable v st3 in (Inr [Some p], st4))
      | _ \<Rightarrow> (Inl UndefinedBehaviour, st))"

definition Add_apply :: "addr option list \<Rightarrow> store \<Rightarrow> (error + addr option list) \<times> store" where
  "Add_apply ins st =
     (case ins of
        [Some x, Some y] \<Rightarrow>
          (case (data (vars st x), data (vars st y)) of
             (Some tx, Some ty) \<Rightarrow>
               let (sum, st1) = newTensor tx st;
                   st2 = cadd sum tx ty st1
               in (case Variable_ctor (Some sum)
                          (requires_grad (vars st2 x) \<or> requires_grad (vars st2 y))
                          (is_volatile (vars st2 x) \<or> is_volatile (vars st2 y)) st2 of
                     (Inl err, st3) \<Rightarrow> (Inl err, st3)
                   | (Inr v, st3) \<Rightarrow>
                       let (p, st4) = make_shared_Variable v st3 in (Inr [Some p], st4))
           | _ \<Rightarrow> (Inl UndefinedBehaviour, st))
      | _ \<Rightarrow> (Inl UndefinedBehaviour, st))"

text \<open>
  The loop of \<^verbatim>\<open>AccumulateGrad::apply\<close> over the hooks of the leaf:
  \<^verbatim>\<open>new_grad = (*hook)({new_grad})[0]\<close>. What a hook object does is a parameter.
\<close>

type_synonym hook_semantics =
  "addr \<Rightarrow> addr option list \<Rightarrow> store \<Rightarrow> (error + addr option list) \<times> store"

fun run_hooks ::
  "hook_semantics \<Rightarrow> addr list \<Rightarrow> addr option \<Rightarrow> store \<Rightarrow> (error + addr option) \<times> store" where
  "run_hooks hook_of [] new_grad st = (Inr new_grad, st)"
| "run_hooks hook_of (hook # rest) new_grad st =
     (case hook_of hook [new_grad] st of
        (Inl err, st1) \<Rightarrow> (Inl err, st1)
      | (Inr [], st1) \<Rightarrow> (Inl UndefinedBehaviour, st1)
      | (Inr (new_grad1 # _), st1) \<Rightarrow> run_hooks hook_of rest new_grad1 st1)"

text \<open>
  \<^verbatim>\<open>AccumulateGrad::apply\<close> of the AccumulateGrad at address \<open>this\<close>. The temporary
  \<^verbatim>\<open>shared_ptr\<close> returned by \<^verbatim>\<open>get_grad_accumulator\<close> is dropped after the comparison: an
  accumulator that this very call created has no other owner and is destroyed. The
  \<^verbatim>\<open>Clone\<close> and \<^verbatim>\<open>Add\<close> nodes live until the end of their block.
\<close>

definition AccumulateGrad_apply ::
  "hook_semantics \<Rightarrow> addr \<Rightarrow> addr option list \<Rightarrow> store \<Rightarrow> (error + addr option list) \<times> store" where
  "AccumulateGrad_apply hook_of this grads st =
     (if length grads \<noteq> 1 then (Inl AccumulateGradArity, st)
      else
        let new_grad = grads ! 0 in
        case var_lock st (variable (acc_members st this)) of
          None \<Rightarrow>
            (case var_lock st (variable_grad (acc_members st this)) of
               None \<Rightarrow> (Inr [], st)
             | Some var_grad \<Rightarrow>
                 if \<not> is_volatile (vars st var_grad) then (Inr [], st)
                 else (case new_grad of
                         None \<Rightarrow> (Inl UndefinedBehaviour, st)
                       | Some ng \<Rightarrow>
                           if \<not> is_volatile (vars st ng) then (Inr [], st)
                           else (case acc_inplace var_grad ng st of
                                   (Some err, st1) \<Rightarrow> (Inl err, st1)
                                 | (None, st1) \<Rightarrow> (Inr [], st1))))
        | Some var \<Rightarrow>
            if grad_fn (vars st var) \<noteq> None then (Inl LeafMovedIntoGraph, st)
            else if version_value st (version_counter (vars st var)) \<noteq> 0
            then (Inl LeafModifiedInplace, st)
            else
              let (acc, st1) = get_grad_accumulator var st;
                  st2 = (case acc of
                           None \<Rightarrow> st1
                         | Some a \<Rightarrow> if a \<in> fn_alive st then st1 else release_Function a st1)
              in if acc \<noteq> Some this then (Inl AccumulatorRebound, st2)
                 else
                   case run_hooks hook_of (hooks (vars st2 var)) new_grad st2 of
                     (Inl err, st3) \<Rightarrow> (Inl err, st3)
                   | (Inr new_grad1, st3) \<Rightarrow>
                       (case grad (vars st3 var) of
                          None \<Rightarrow>
                            let (clone_fn, st4) = make_shared_Function st3 in
                            (case Clone_apply [new_grad1] st4 of
                               (Inl err, st5) \<Rightarrow> (Inl err, release_Function clone_fn st5)
                             | (Inr [], st5) \<Rightarrow>
                                 (Inl UndefinedBehaviour, release_Function clone_fn st5)
                             | (Inr (out # _), st5) \<Rightarrow>
                                 (Inr [],
                                  release_Function clone_fn
                                    (st5\<lparr> vars := (vars st5)(var :=
                                             (vars st5 var)\<lparr> grad := out \<rparr>),
                                          acc_members := (acc_members st5)(this :=
                                             (acc_members st5 this)\<lparr> variable_grad := out \<rparr>) \<rparr>)))
                        | Some g \<Rightarrow>
                            if is_volatile (vars st3 g)
                            then (case new_grad1 of
                                    None \<Rightarrow> (Inl UndefinedBehaviour, st3)
                                  | Some ng \<Rightarrow>
                                      (case acc_inplace g ng st3 of
                                         (Some err, st4) \<Rightarrow> (Inl err, st4)
                                       | (None, st4) \<Rightarrow> (Inr [], st4)))
                            else
                              let (add_fn, st4) = make_shared_Function st3 in
                              (case new_grad1 of
                                 None \<Rightarrow> (Inl UndefinedBehaviour, release_Function add_fn st4)
                               | Some ng \<Rightarrow>
                                   let (r, st5) =
                                         (if \<not> is_volatile (vars st4 g) \<and> is_volatile (vars st4 ng)
                                          then
                                            (case data (vars st4 ng) of
                                               None \<Rightarrow> (Inl UndefinedBehaviour, st4)
                                             | Some t \<Rightarrow>
                                                 (case Variable_ctor (Some (clone_shallow t))
                                                         False False st4 of
                                                    (Inl err, st') \<Rightarrow> (Inl err, st')
                                                  | (Inr v, st') \<Rightarrow>
                                                      (case make_shared_Variable v st' of
                                                         (p, st'') \<Rightarrow> (Inr p, st''))))
                                          else (Inr ng, st4))
                                   in case r of
                                        Inl err \<Rightarrow> (Inl err, release_Function add_fn st5)
                                      | Inr ng1 \<Rightarrow>
                                          (case Add_apply [Some g, Some ng1] st5 of
                                             (Inl err, st6) \<Rightarrow>
                                               (Inl err, release_Function add_fn st6)
                                           | (Inr [], st6) \<Rightarrow>
                                               (Inl UndefinedBehaviour,
                                                release_Function add_fn st6)
                                           | (Inr (out # _), st6) \<Rightarrow>
                                               (Inr [],
                                                release_Function add_fn
                                                  (st6\<lparr> vars := (vars st6)(var :=
                                                     (vars st6 var)\<lparr> grad := out \<rparr>) \<rparr>))))))"

text \<open>
  The elements of the data tensor of a Variable: two Variables are tensor-equal when their
  elements are equal. In a well-formed store every live Variable, and the storage of its
  data, lies below the allocation counters.
\<close>

definition elements :: "store \<Rightarrow> addr \<Rightarrow> int list option" where
  "elements st p = map_option (\<lambda>t. storages st (storage t)) (data (vars st p))"

definition store_wf :: "store \<Rightarrow> bool" where
  "store_wf st \<longleftrightarrow>
     (\<forall>p \<in> var_alive st. p < var_next st
        \<and> (\<forall>t. data (vars st p) = Some t \<longrightarrow> storage t < sto_next st))"

subsection \<open>Every live Variable has data\<close>

text \<open>
  The invariant: the data tensor of every live Variable is not null.
\<close>

definition data_invariant :: "store \<Rightarrow> bool" where
  "data_invariant st \<longleftrightarrow> (\<forall>p \<in> var_alive st. data (vars st p) \<noteq> None)"

text \<open>
  What the hook objects do is not part of the core; hooks keep the invariant when no hook
  call takes the data of a live Variable away.
\<close>

definition hooks_keep_data :: "hook_semantics \<Rightarrow> bool" where
  "hooks_keep_data hook_of \<longleftrightarrow>
     (\<forall>hook ins st. data_invariant st \<longrightarrow> data_invariant (snd (hook_of hook ins st)))"

lemma data_invariant_same:
  assumes "var_alive st' = var_alive st" "\<forall>p \<in> var_alive st. data (vars st' p) = data (vars st p)"
  shows "data_invariant st' = data_invariant st"
  using assms by (simp add: data_invariant_def)

lemma data_invariant_new_VariableVersion [simp]:
  "data_invariant (snd (new_VariableVersion st)) = data_invariant st"
  by (simp add: data_invariant_def new_VariableVersion_def)

lemma data_invariant_release_Function [simp]:
  "data_invariant (release_Function p st) = data_invariant st"
  by (simp add: data_invariant_def release_Function_def)

lemma data_invariant_make_shared_Function [simp]:
  "data_invariant (snd (make_shared_Function st)) = data_invariant st"
  by (simp add: data_invariant_def make_shared_Function_def)

lemma data_invariant_newTensor [simp]:
  "data_invariant (snd (newTensor t st)) = data_invariant st"
  by (simp add: data_invariant_def newTensor_def)

lemma data_invariant_cadd [simp]:
  "data_invariant (cadd dst a b st) = data_invariant st"
  by (simp add: data_invariant_def cadd_def)

lemma data_invariant_Variable_ctor:
  "data_invariant (snd (Variable_ctor d rg vol st)) = data_invariant st"
  by (simp add: data_invariant_def Variable_ctor_def new_VariableVersion_def)

lemma data_invariant_Variable_ctor_grad_fn:
  "data_invariant (snd (Variable_ctor_grad_fn d gf st)) = data_invariant st"
  by (simp add: data_invariant_def Variable_ctor_grad_fn_def new_VariableVersion_def Let_def
           split: option.splits)

lemma Variable_ctor_data:
  "Variable_ctor d rg vol st = (Inr v, st1) \<Longrightarrow> data v \<noteq> None"
  by (auto simp: Variable_ctor_def new_VariableVersion_def Let_def split: if_splits)

lemma Variable_ctor_grad_fn_data:
  "Variable_ctor_grad_fn d gf st = (Inr v, st1) \<Longrightarrow> data v \<noteq> None"
  by (auto simp: Variable_ctor_grad_fn_def new_VariableVersion_def Let_def
           split: if_splits option.splits)

lemma data_invariant_make_shared_Variable:
  "data v \<noteq> None \<Longrightarrow> data_invariant st \<Longrightarrow> data_invariant (snd (make_shared_Variable v st))"
  by (simp add: data_invariant_def make_shared_Variable_def)

lemma data_invariant_new_Variable:
  assumes "data_invariant st" "Variable_ctor d rg vol st = (Inr v, st1)"
  shows "data_invariant (snd (make_shared_Variable v st1))"
proof -
  have "data_invariant st1"
    using data_invariant_Variable_ctor [of d rg vol st] assms by simp
  with Variable_ctor_data [OF assms(2)] show ?thesis
    by (rule data_invariant_make_shared_Variable)
qed

lemma data_invariant_new_output_Variable:
  assumes "data_invariant st" "Variable_ctor_grad_fn d gf st = (Inr v, st1)"
  shows "data_invariant (snd (make_shared_Variable v st1))"
proof -
  have "data_invariant st1"
    using data_invariant_Variable_ctor_grad_fn [of d gf st] assms by simp
  with Variable_ctor_grad_fn_data [OF assms(2)] show ?thesis
    by (rule data_invariant_make_shared_Variable)
qed

lemma data_invariant_get_grad_accumulator:
  "data_invariant (snd (get_grad_accumulator this st)) = data_invariant st"
  by (auto simp: data_invariant_def get_grad_accumulator_def make_shared_AccumulateGrad_def
        Let_def split: option.splits)

lemma data_invariant_unpack:
  assumes "data_invariant st"
  shows "data_invariant (snd (unpack sv st))"
  using assms
  by (auto simp: unpack_def Let_def Variable_ctor_def new_VariableVersion_def
        make_shared_Variable_def join_with_def data_invariant_def
      split: option.splits prod.splits sum.splits if_splits)

lemma data_invariant_acc_inplace:
  assumes "data_invariant st"
  shows "data_invariant (snd (acc_inplace g ng st))"
  using assms
  by (auto simp: acc_inplace_def Let_def newTensor_def cadd_def data_invariant_def
      split: option.splits prod.splits if_splits)

lemma data_invariant_Clone_apply:
  assumes "data_invariant st"
  shows "data_invariant (snd (Clone_apply ins st))"
  using assms
  by (auto simp: Clone_apply_def Let_def newTensor_def Variable_ctor_def new_VariableVersion_def
        make_shared_Variable_def data_invariant_def
      split: option.splits prod.splits list.splits if_splits)

lemma data_invariant_Add_apply:
  assumes "data_invariant st"
  shows "data_invariant (snd (Add_apply ins st))"
  using assms
  by (auto simp: Add_apply_def Let_def newTensor_def cadd_def Variable_ctor_def
        new_VariableVersion_def make_shared_Variable_def data_invariant_def
      split: option.splits prod.splits list.splits if_splits)

lemma data_invariant_run_hooks:
  assumes "hooks_keep_data hook_of"
  shows "data_invariant st \<Longrightarrow> data_invariant (snd (run_hooks hook_of hs g st))"
proof (induction hs arbitrary: g st)
  case Nil
  then show ?case by simp
next
  case (Cons h hs)
  have "data_invariant (snd (hook_of h [g] st))"
    using assms Cons.prems by (simp add: hooks_keep_data_def)
  then show ?case
    using Cons.IH by (auto split: prod.splits sum.splits list.splits)
qed

lemma data_invariant_set_grad [simp]:
  "data_invariant (st\<lparr> vars := (vars st)(p := (vars st p)\<lparr> grad := g \<rparr>) \<rparr>) = data_invariant st"
  by (auto simp: data_invariant_def)

lemma data_invariant_set_grad_members [simp]:
  "data_invariant (st\<lparr> vars := (vars st)(p := (vars st p)\<lparr> grad := g \<rparr>), acc_members := m \<rparr>)
     = data_invariant st"
  by (auto simp: data_invariant_def)

lemma data_invariant_AccumulateGrad_apply:
  assumes hk: "hooks_keep_data hook_of" and inv: "data_invariant st"
  shows "data_invariant (snd (AccumulateGrad_apply hook_of this grads st))"
proof (cases "length grads = 1")
  case False
  then show ?thesis using inv by (simp add: AccumulateGrad_apply_def)
next
  case len: True
  have inplace: "data_invariant s'" if "data_invariant s" "acc_inplace a b s = (r, s')"
    for s a b r s'
    using data_invariant_acc_inplace [OF that(1), of a b] that(2) by simp
  show ?thesis
  proof (cases "var_lock st (variable (acc_members st this))")
    case None
    have "snd (AccumulateGrad_apply hook_of this grads st) = st
          \<or> (\<exists>a b r. acc_inplace a b st = (r, snd (AccumulateGrad_apply hook_of this grads st)))"
      using len None
      by (auto simp: AccumulateGrad_apply_def Let_def split: option.splits prod.splits)
    then show ?thesis using inv inplace [OF inv] by auto
  next
    case (Some var)
    note live = this
    show ?thesis
    proof (cases "grad_fn (vars st var) \<noteq> None
                  \<or> version_value st (version_counter (vars st var)) \<noteq> 0")
      case True
      then have "snd (AccumulateGrad_apply hook_of this grads st) = st"
        using len live by (auto simp: AccumulateGrad_apply_def Let_def)
      then show ?thesis using inv by simp
    next
      case False
      then have leaf: "grad_fn (vars st var) = None"
        "version_value st (version_counter (vars st var)) = 0" by simp_all
      obtain acc st1 where ga: "get_grad_accumulator var st = (acc, st1)" by force
      define st2 where "st2 = (case acc of None \<Rightarrow> st1
                               | Some a \<Rightarrow> if a \<in> fn_alive st then st1 else release_Function a st1)"
      have i1: "data_invariant st1"
        using data_invariant_get_grad_accumulator [of var st] ga inv by simp
      have i2: "data_invariant st2"
        using i1 by (simp add: st2_def split: option.splits)
      show ?thesis
      proof (cases "acc = Some this")
        case False
        then have "snd (AccumulateGrad_apply hook_of this grads st) = st2"
          using len live leaf ga
          by (simp add: AccumulateGrad_apply_def Let_def st2_def)
        then show ?thesis using i2 by simp
      next
        case bound: True
        obtain r3 st3 where rh:
          "run_hooks hook_of (hooks (vars st2 var)) (grads ! 0) st2 = (r3, st3)" by force
        have i3: "data_invariant st3"
          using data_invariant_run_hooks [OF hk i2, of "hooks (vars st2 var)" "grads ! 0"] rh
          by simp
        show ?thesis
        proof (cases r3)
          case (Inl err)
          then have "snd (AccumulateGrad_apply hook_of this grads st) = st3"
            using len live leaf ga bound rh
            by (simp add: AccumulateGrad_apply_def Let_def st2_def)
          then show ?thesis using i3 by simp
        next
          case (Inr ng1)
          note hooked = this
          show ?thesis
          proof (cases "grad (vars st3 var)")
            case None
            note no_grad = this
            obtain rc st5 where cl:
              "Clone_apply [ng1] (snd (make_shared_Function st3)) = (rc, st5)" by force
            have i5: "data_invariant st5"
              using data_invariant_Clone_apply [of "snd (make_shared_Function st3)" "[ng1]"]
                cl i3 by simp
            have "\<exists>g m. snd (AccumulateGrad_apply hook_of this grads st)
                          = release_Function (fn_next st3) st5
                 \<or> snd (AccumulateGrad_apply hook_of this grads st)
                          = release_Function (fn_next st3)
                              (st5\<lparr> vars := (vars st5)(var := (vars st5 var)\<lparr> grad := g \<rparr>),
                                    acc_members := m \<rparr>)"
              using len live leaf ga bound rh hooked no_grad cl
              by (auto simp: AccumulateGrad_apply_def Let_def st2_def make_shared_Function_def
                    split: sum.splits list.splits)
            then show ?thesis using i5 by auto
          next
            case (Some g)
            note has_grad = this
            show ?thesis
            proof (cases "is_volatile (vars st3 g)")
              case True
              have "snd (AccumulateGrad_apply hook_of this grads st) = st3
                    \<or> (\<exists>b r. acc_inplace g b st3
                                = (r, snd (AccumulateGrad_apply hook_of this grads st)))"
                using len live leaf ga bound rh hooked has_grad True
                by (auto simp: AccumulateGrad_apply_def Let_def st2_def
                      split: option.splits prod.splits)
              then show ?thesis using i3 inplace [OF i3] by auto
            next
              case False
              note dense = this
              define st4 where "st4 = snd (make_shared_Function st3)"
              have i4: "data_invariant st4" using i3 by (simp add: st4_def)
              have mf: "make_shared_Function st3 = (fn_next st3, st4)"
                by (simp add: st4_def make_shared_Function_def)
              show ?thesis
              proof (cases ng1)
                case None
                then have "snd (AccumulateGrad_apply hook_of this grads st)
                             = release_Function (fn_next st3) st4"
                  using len live leaf ga bound rh hooked has_grad dense
                  by (simp add: AccumulateGrad_apply_def Let_def st2_def st4_def
                        make_shared_Function_def)
                then show ?thesis using i4 by simp
              next
                case (Some ng)
                note given = this
                define r5 where "r5 =
                   (if \<not> is_volatile (vars st4 g) \<and> is_volatile (vars st4 ng)
                    then
                      (case data (vars st4 ng) of
                         None \<Rightarrow> (Inl UndefinedBehaviour, st4)
                       | Some t \<Rightarrow>
                           (case Variable_ctor (Some (clone_shallow t)) False False st4 of
                              (Inl err, st') \<Rightarrow> (Inl err, st')
                            | (Inr v, st') \<Rightarrow>
                                (case make_shared_Variable v st' of
                                   (p, st'') \<Rightarrow> (Inr p, st''))))
                    else (Inr ng, st4))"
                have i5: "data_invariant (snd r5)"
                proof (cases "\<not> is_volatile (vars st4 g) \<and> is_volatile (vars st4 ng)")
                  case False
                  then have "r5 = (Inr ng, st4)" unfolding r5_def by (simp only: if_False)
                  then show ?thesis using i4 by simp
                next
                  case vol: True
                  show ?thesis
                  proof (cases "data (vars st4 ng)")
                    case None
                    with vol show ?thesis using i4 by (simp add: r5_def)
                  next
                    case (Some t)
                    obtain rv st' where ct:
                      "Variable_ctor (Some (clone_shallow t)) False False st4 = (rv, st')"
                      by force
                    show ?thesis
                    proof (cases rv)
                      case (Inl err)
                      then have "snd r5 = st'" using vol Some ct by (simp add: r5_def)
                      then show ?thesis
                        using data_invariant_Variable_ctor
                                [of "Some (clone_shallow t)" False False st4] ct i4 by simp
                    next
                      case (Inr v)
                      then have "snd r5 = snd (make_shared_Variable v st')"
                        using vol Some ct by (simp add: r5_def split: prod.splits)
                      then show ?thesis
                        using data_invariant_new_Variable [OF i4, of _ False False v st'] ct Inr
                        by simp
                    qed
                  qed
                qed
                have main: "AccumulateGrad_apply hook_of this grads st =
                    (case r5 of (r, st5) \<Rightarrow>
                       case r of
                         Inl err \<Rightarrow> (Inl err, release_Function (fn_next st3) st5)
                       | Inr ng1 \<Rightarrow>
                           (case Add_apply [Some g, Some ng1] st5 of
                              (Inl err, st6) \<Rightarrow> (Inl err, release_Function (fn_next st3) st6)
                            | (Inr [], st6) \<Rightarrow>
                                (Inl UndefinedBehaviour, release_Function (fn_next st3) st6)
                            | (Inr (out # _), st6) \<Rightarrow>
                                (Inr [],
                                 release_Function (fn_next st3)
                                   (st6\<lparr> vars := (vars st6)(var :=
                                      (vars st6 var)\<lparr> grad := out \<rparr>) \<rparr>))))"
                  using len live leaf ga bound rh hooked has_grad dense given mf
                  by (simp add: AccumulateGrad_apply_def Let_def st2_def r5_def)
                obtain r st5 where r5: "r5 = (r, st5)" by (cases r5)
                have i5': "data_invariant st5" using i5 r5 by simp
                show ?thesis
                proof (cases r)
                  case (Inl err)
                  then have "snd (AccumulateGrad_apply hook_of this grads st)
                               = release_Function (fn_next st3) st5"
                    unfolding main r5 by simp
                  then show ?thesis using i5' by simp
                next
                  case (Inr ng1')
                  obtain ra st6 where ad: "Add_apply [Some g, Some ng1'] st5 = (ra, st6)"
                    by force
                  have i6: "data_invariant st6"
                    using data_invariant_Add_apply [OF i5', of "[Some g, Some ng1']"] ad by simp
                  have "\<exists>out. snd (AccumulateGrad_apply hook_of this grads st)
                                = release_Function (fn_next st3) st6
                       \<or> snd (AccumulateGrad_apply hook_of this grads st)
                                = release_Function (fn_next st3)
                                    (st6\<lparr> vars := (vars st6)(var :=
                                              (vars st6 var)\<lparr> grad := out \<rparr>) \<rparr>)"
                    unfolding main r5 using Inr ad
                    by (auto split: sum.splits list.splits)
                  then show ?thesis using i6 by auto
                qed
              qed
            qed
          qed
        qed
      qed
    qed
  qed
qed

section \<open>The backward engine\<close>

text \<open>
  The engine sees Variables only as values that flow from one Function to the next, so the
  type of gradient Variables is a parameter \<open>'v\<close>; a \<^verbatim>\<open>shared_ptr<Variable>\<close> that may be
  null is a \<open>'v option\<close>.
\<close>

type_synonym 'v variable_list = "'v option list"

text \<open>
  Modelled from the spec: \<^verbatim>\<open>InputBuffer\<close> (input_buffer.h) is a fixed-size vector of
  optional gradient Variables; \<^verbatim>\<open>add(index, variable)\<close> places the Variable or, if the slot
  is occupied, adds into the slot; \<^verbatim>\<open>variables()\<close> extracts the slots, a missing slot
  becoming a zero placeholder. A null Variable and an index outside the buffer leave the
  buffer as it is. Every tensor is on the CPU, so \<^verbatim>\<open>device()\<close> is always -1.
\<close>

type_synonym 'v InputBuffer = "'v option list"

definition InputBuffer_new :: "int \<Rightarrow> 'v InputBuffer" where
  "InputBuffer_new n = replicate (nat n) None"

definition InputBuffer_add ::
  "('v \<Rightarrow> 'v \<Rightarrow> 'v) \<Rightarrow> int \<Rightarrow> 'v option \<Rightarrow> 'v InputBuffer \<Rightarrow> 'v InputBuffer" where
  "InputBuffer_add vadd pos var buf =
     (case var of
        None \<Rightarrow> buf
      | Some v \<Rightarrow>
          if 0 \<le> pos \<and> nat pos < length buf
          then (case buf ! nat pos of
                  None \<Rightarrow> buf[nat pos := Some v]
                | Some old \<Rightarrow> buf[nat pos := Some (vadd old v)])
          else buf)"

definition InputBuffer_variables :: "'v \<Rightarrow> 'v InputBuffer \<Rightarrow> 'v variable_list" where
  "InputBuffer_variables zero buf =
     map (\<lambda>slot. case slot of None \<Rightarrow> Some zero | Some v \<Rightarrow> Some v) buf"

text \<open>
  What the engine calls through pointers: the virtual \<^verbatim>\<open>Function::apply\<close> of the Function
  at an address, the pre- and post-hook objects, and the tensor addition and zero
  placeholder behind \<^verbatim>\<open>InputBuffer\<close>. A call either returns or throws.
\<close>

record 'v dispatch =
  apply_of :: "addr \<Rightarrow> 'v variable_list \<Rightarrow> error + 'v variable_list"
  pre_hook_of :: "addr \<Rightarrow> 'v variable_list \<Rightarrow> error + 'v variable_list"
  post_hook_of :: "addr \<Rightarrow> 'v variable_list \<Rightarrow> 'v variable_list \<Rightarrow> error + 'v variable_list"
  add_of :: "'v \<Rightarrow> 'v \<Rightarrow> 'v"
  zero_of :: 'v

type_synonym 'v callback_map = "addr \<rightharpoonup> (addr \<Rightarrow> 'v variable_list \<Rightarrow> bool)"

text \<open>
  \<^verbatim>\<open>struct FunctionTask\<close>. One \<^verbatim>\<open>execute\<close> runs at a time, so the \<^verbatim>\<open>base\<close> pointer of
  every task is the one GraphTask of the engine state.
\<close>

record 'v FunctionTask =
  fn :: addr
  inputs :: "'v InputBuffer"

text \<open>
  \<^verbatim>\<open>struct GraphTask\<close> and its constructor. The two \<^verbatim>\<open>unordered_map\<close>s are association
  lists with one entry per key: \<^verbatim>\<open>find\<close> is \<open>map_of\<close>, \<^verbatim>\<open>erase\<close> is \<open>AList.delete\<close>, and
  writing through a reference or \<^verbatim>\<open>emplace\<close> of a new key is \<open>AList.update\<close>.
\<close>

record 'v GraphTask =
  exception :: "error option"
  has_error :: bool
  outstanding_tasks :: "64 word"
  keep_graph :: bool
  has_any_work :: bool
  function_callbacks :: "'v callback_map"
  not_ready :: "(addr \<times> 'v InputBuffer) list"
  dependencies :: "(addr \<times> int) list"

definition GraphTask_new :: "bool \<Rightarrow> 'v callback_map \<Rightarrow> 'v GraphTask" where
  "GraphTask_new kg callbacks =
     \<lparr> exception = None, has_error = False, outstanding_tasks = 0, keep_graph = kg,
       has_any_work = False, function_callbacks = callbacks,
       not_ready = [], dependencies = [] \<rparr>"

text \<open>
  The calls the engine makes into a Function, in the order it makes them.
\<close>

datatype call = Apply addr | ReleaseVariables addr

text \<open>
  The state of the engine during one \<^verbatim>\<open>execute\<close> of a build without CUDA:
  \<^verbatim>\<open>start_threads\<close> creates exactly one ReadyQueue (the deque, front first) and one
  worker thread. The caller of \<^verbatim>\<open>execute\<close> and the worker share the GraphTask under its
  mutex, so the two threads are run one after the other: the caller up to its wait, then
  the worker until its queue is empty.
\<close>

record 'v Engine =
  ready_queue :: "'v FunctionTask list"
  graph_task :: "'v GraphTask"
  calls :: "call list"

subsection \<open>ReadyQueue\<close>

text \<open>
  \<^verbatim>\<open>ReadyQueue::push_front\<close> increments \<^verbatim>\<open>outstanding_tasks\<close> of the task's GraphTask and
  puts the task at the front of the deque.
\<close>

definition push_front :: "'v FunctionTask \<Rightarrow> 'v Engine \<Rightarrow> 'v Engine" where
  "push_front item e =
     e\<lparr> graph_task := (graph_task e)\<lparr> outstanding_tasks :=
                          outstanding_tasks (graph_task e) + 1 \<rparr>,
        ready_queue := item # ready_queue e \<rparr>"

text \<open>
  \<^verbatim>\<open>ReadyQueue::pop_back\<close> removes and returns the task at the back of the deque. On an
  empty queue the caller blocks on the condition variable: no result.
\<close>

definition pop_back :: "'v Engine \<Rightarrow> ('v FunctionTask \<times> 'v Engine) option" where
  "pop_back e =
     (if ready_queue e = [] then None
      else Some (last (ready_queue e), e\<lparr> ready_queue := butlast (ready_queue e) \<rparr>))"

subsection \<open>Evaluating one task\<close>

text \<open>\<^verbatim>\<open>call_pre_hooks\<close> and \<^verbatim>\<open>call_post_hooks\<close>: the hooks run in order.\<close>

fun call_pre_hooks ::
  "'v dispatch \<Rightarrow> addr list \<Rightarrow> 'v variable_list \<Rightarrow> error + 'v variable_list" where
  "call_pre_hooks d [] ins = Inr ins"
| "call_pre_hooks d (hook # rest) ins =
     (case pre_hook_of d hook ins of
        Inl err \<Rightarrow> Inl err
      | Inr ins' \<Rightarrow> call_pre_hooks d rest ins')"

fun call_post_hooks ::
  "'v dispatch \<Rightarrow> addr list \<Rightarrow> 'v variable_list \<Rightarrow> 'v variable_list
     \<Rightarrow> error + 'v variable_list" where
  "call_post_hooks d [] outputs ins = Inr outputs"
| "call_post_hooks d (hook # rest) outputs ins =
     (case post_hook_of d hook outputs ins of
        Inl err \<Rightarrow> Inl err
      | Inr outputs' \<Rightarrow> call_post_hooks d rest outputs' ins)"

text \<open>
  \<^verbatim>\<open>call_function\<close>. A callback registered for the Function that returns false stands in
  for the Function: the outputs are null pointers, one per edge, and neither \<^verbatim>\<open>apply\<close> nor
  the post-hooks run.
\<close>

definition call_function ::
  "'v dispatch \<Rightarrow> (addr \<Rightarrow> Function) \<Rightarrow> 'v FunctionTask \<Rightarrow> 'v Engine
     \<Rightarrow> (error + 'v variable_list) \<times> 'v Engine" where
  "call_function d G task e =
     (case call_pre_hooks d (pre_hooks (G (fn task)))
             (InputBuffer_variables (zero_of d) (inputs task)) of
        Inl err \<Rightarrow> (Inl err, e)
      | Inr ins \<Rightarrow>
          let rejected = (case function_callbacks (graph_task e) (fn task) of
                            None \<Rightarrow> False
                          | Some callback \<Rightarrow> \<not> callback (fn task) ins)
          in if rejected
             then (Inr (replicate (length (next_functions (G (fn task)))) None), e)
             else
               let e1 = e\<lparr> calls := calls e @ [Apply (fn task)] \<rparr>
               in case apply_of d (fn task) ins of
                    Inl err \<Rightarrow> (Inl err, e1)
                  | Inr fn_outputs \<Rightarrow>
                      (call_post_hooks d (post_hooks (G (fn task))) fn_outputs ins, e1))"

text \<open>
  One iteration of the loop of \<^verbatim>\<open>evaluate_function\<close> over the outputs: the output
  \<open>output\<close> goes along the edge \<open>(next_fn, input_nr)\<close>.
\<close>

definition route_output ::
  "'v dispatch \<Rightarrow> (addr \<Rightarrow> Function) \<Rightarrow> 'v option \<times> addr option \<times> int \<Rightarrow> 'v Engine
     \<Rightarrow> error option \<times> 'v Engine" where
  "route_output d G edge e =
     (case edge of (output, next_fn_opt, input_nr) \<Rightarrow>
      case next_fn_opt of
        None \<Rightarrow> (None, e)
      | Some next_fn \<Rightarrow>
          if is_stochastic (G next_fn) \<or> \<not> is_executable (G next_fn) then (None, e)
          else
            case map_of (dependencies (graph_task e)) next_fn of
              None \<Rightarrow> (Some (DependencyNotFound next_fn), e)
            | Some n \<Rightarrow>
                let is_ready = (n - 1 = 0);
                    deps = (if is_ready then AList.delete next_fn (dependencies (graph_task e))
                            else AList.update next_fn (n - 1) (dependencies (graph_task e)));
                    e1 = e\<lparr> graph_task := (graph_task e)\<lparr> dependencies := deps \<rparr> \<rparr>
                in case map_of (not_ready (graph_task e1)) next_fn of
                     None \<Rightarrow>
                       let input_buffer = InputBuffer_add (add_of d) input_nr output
                                            (InputBuffer_new (sint (num_inputs (G next_fn))))
                       in if is_ready
                          then (None, push_front \<lparr> fn = next_fn, inputs = input_buffer \<rparr> e1)
                          else (None, e1\<lparr> graph_task := (graph_task e1)\<lparr> not_ready :=
                                   AList.update next_fn input_buffer
                                     (not_ready (graph_task e1)) \<rparr> \<rparr>)
                   | Some buf \<Rightarrow>
                       let input_buffer = InputBuffer_add (add_of d) input_nr output buf
                       in if is_ready
                          then
                            let e2 = push_front \<lparr> fn = next_fn, inputs = input_buffer \<rparr> e1
                            in (None, e2\<lparr> graph_task := (graph_task e2)\<lparr> not_ready :=
                                   AList.delete next_fn (not_ready (graph_task e2)) \<rparr> \<rparr>)
                          else (None, e1\<lparr> graph_task := (graph_task e1)\<lparr> not_ready :=
                                   AList.update next_fn input_buffer
                                     (not_ready (graph_task e1)) \<rparr> \<rparr>))"

text \<open>The loop: it stops at the first iteration that throws.\<close>

fun route_outputs ::
  "'v dispatch \<Rightarrow> (addr \<Rightarrow> Function) \<Rightarrow> ('v option \<times> addr option \<times> int) list \<Rightarrow> 'v Engine
     \<Rightarrow> error option \<times> 'v Engine" where
  "route_outputs d G [] e = (None, e)"
| "route_outputs d G (edge # rest) e =
     (case route_output d G edge e of
        (Some err, e1) \<Rightarrow> (Some err, e1)
      | (None, e1) \<Rightarrow> route_outputs d G rest e1)"

text \<open>
  \<^verbatim>\<open>Engine::evaluate_function\<close>. The result is the exception that leaves the function, if
  any, and the state reached.
\<close>

definition evaluate_function ::
  "'v dispatch \<Rightarrow> (addr \<Rightarrow> Function) \<Rightarrow> 'v FunctionTask \<Rightarrow> 'v Engine
     \<Rightarrow> error option \<times> 'v Engine" where
  "evaluate_function d G task e =
     (case call_function d G task e of
        (Inl err, e1) \<Rightarrow> (Some err, e1)
      | (Inr outputs, e1) \<Rightarrow>
          let e2 = (if \<not> keep_graph (graph_task e1)
                    then e1\<lparr> calls := calls e1 @ [ReleaseVariables (fn task)] \<rparr>
                    else e1)
          in if length outputs \<noteq> length (next_functions (G (fn task)))
             then (Some (InvalidOutputCount (fn task)
                           (length (next_functions (G (fn task)))) (length outputs)), e2)
             else route_outputs d G (zip outputs (next_functions (G (fn task)))) e2)"

text \<open>\<^verbatim>\<open>Engine::thread_on_exception\<close>: the first exception wins.\<close>

definition thread_on_exception :: "error \<Rightarrow> 'v Engine \<Rightarrow> 'v Engine" where
  "thread_on_exception err e =
     (if \<not> has_error (graph_task e)
      then e\<lparr> graph_task := (graph_task e)\<lparr> exception := Some err, has_error := True \<rparr> \<rparr>
      else e)"

text \<open>
  One iteration of the loop of \<^verbatim>\<open>Engine::thread_main\<close>, after the task was popped: the
  task is evaluated unless the GraphTask already has an error, then \<^verbatim>\<open>outstanding_tasks\<close>
  is decremented.
\<close>

definition thread_main_iteration ::
  "'v dispatch \<Rightarrow> (addr \<Rightarrow> Function) \<Rightarrow> 'v FunctionTask \<Rightarrow> 'v Engine \<Rightarrow> 'v Engine" where
  "thread_main_iteration d G task e1 =
     (let e2 = (if \<not> has_error (graph_task e1)
                then (case evaluate_function d G task e1 of
                        (None, e') \<Rightarrow> e'
                      | (Some err, e') \<Rightarrow> thread_on_exception err e')
                else e1)
      in e2\<lparr> graph_task := (graph_task e2)\<lparr> outstanding_tasks :=
                  outstanding_tasks (graph_task e2) - 1 \<rparr> \<rparr>)"

text \<open>
  The work left in an engine state: the queued tasks plus the dependency counts still to
  be consumed. Routing an output never increases it, and popping a task decreases it.
\<close>

definition work_left :: "'v Engine \<Rightarrow> nat" where
  "work_left e =
     length (ready_queue e) + sum_list (map (\<lambda>(k, n). nat n) (dependencies (graph_task e)))"

lemma sum_list_delete_le0:
  "sum_list (map (\<lambda>(k, n). nat n) (AList.delete k al)) \<le> sum_list (map (\<lambda>(k, n). nat n) al)"
  by (induction al) auto

lemma sum_list_delete_le:
  "map_of al k = Some n
   \<Longrightarrow> sum_list (map (\<lambda>(k, n). nat n) (AList.delete k al)) + nat n
         \<le> sum_list (map (\<lambda>(k, n). nat n) al)"
proof (induction al)
  case Nil
  then show ?case by simp
next
  case (Cons a al)
  then show ?case
    using sum_list_delete_le0 [of k al] by (cases a) (auto split: if_splits)
qed

lemma sum_list_update_le:
  "map_of al k = Some n \<Longrightarrow> m \<le> n
   \<Longrightarrow> sum_list (map (\<lambda>(k, n). nat n) (AList.update k m al))
         \<le> sum_list (map (\<lambda>(k, n). nat n) al)"
  by (induction al) (auto split: if_splits)

lemma work_left_route_output: "work_left (snd (route_output d G edge e)) \<le> work_left e"
proof -
  obtain out next_fn_opt input_nr where edge: "edge = (out, next_fn_opt, input_nr)"
    by (cases edge) auto
  show ?thesis
  proof (cases next_fn_opt)
    case None
    with edge show ?thesis by (simp add: route_output_def)
  next
    case (Some next_fn)
    show ?thesis
    proof (cases "map_of (dependencies (graph_task e)) next_fn")
      case None
      with edge Some show ?thesis by (simp add: route_output_def)
    next
      case (Some n)
      note dep = this
      have del: "n = 1 \<Longrightarrow>
          Suc (sum_list (map (\<lambda>(k, n). nat n) (AList.delete next_fn (dependencies (graph_task e)))))
            \<le> sum_list (map (\<lambda>(k, n). nat n) (dependencies (graph_task e)))"
        using sum_list_delete_le [OF dep] by simp
      have upd: "sum_list (map (\<lambda>(k, n). nat n)
                    (AList.update next_fn (n - 1) (dependencies (graph_task e))))
            \<le> sum_list (map (\<lambda>(k, n). nat n) (dependencies (graph_task e)))"
        using sum_list_update_le [OF dep, of "n - 1"] by simp
      from edge \<open>next_fn_opt = Some next_fn\<close> dep del upd show ?thesis
        by (auto simp: route_output_def work_left_def push_front_def Let_def
              split: option.splits)
    qed
  qed
qed

lemma work_left_route_outputs: "work_left (snd (route_outputs d G edges e)) \<le> work_left e"
proof (induction edges arbitrary: e)
  case Nil
  show ?case by simp
next
  case (Cons edge rest)
  obtain err e1 where r: "route_output d G edge e = (err, e1)"
    by (cases "route_output d G edge e")
  have le1: "work_left e1 \<le> work_left e"
    using work_left_route_output [of d G edge e] r by simp
  show ?case
  proof (cases err)
    case None
    with r Cons.IH [of e1] le1 show ?thesis by simp
  next
    case (Some x)
    with r le1 show ?thesis by simp
  qed
qed

lemma call_function_state:
  "ready_queue (snd (call_function d G task e)) = ready_queue e
   \<and> graph_task (snd (call_function d G task e)) = graph_task e"
  by (auto simp: call_function_def Let_def split: sum.splits option.splits)

lemma work_left_evaluate_function:
  "work_left (snd (evaluate_function d G task e)) \<le> work_left e"
proof -
  obtain r e1 where c: "call_function d G task e = (r, e1)"
    by (cases "call_function d G task e")
  have e1: "work_left e1 = work_left e"
    using call_function_state [of d G task e] c by (simp add: work_left_def)
  show ?thesis
  proof (cases r)
    case (Inl err)
    with c e1 show ?thesis by (simp add: evaluate_function_def)
  next
    case (Inr outputs)
    have rel: "work_left (e1\<lparr> calls := cs \<rparr>) = work_left e1" for cs
      by (simp add: work_left_def)
    from c Inr e1 rel show ?thesis
      using work_left_route_outputs
              [of d G "zip outputs (next_functions (G (fn task)))" e1]
            work_left_route_outputs
              [of d G "zip outputs (next_functions (G (fn task)))"
                  "e1\<lparr> calls := calls e1 @ [ReleaseVariables (fn task)] \<rparr>"]
      by (auto simp: evaluate_function_def Let_def)
  qed
qed

lemma work_left_thread_main_iteration:
  "work_left (thread_main_iteration d G task e) \<le> work_left e"
proof -
  have exc: "work_left (thread_on_exception err e') = work_left e'" for err and e' :: "'a Engine"
    by (simp add: thread_on_exception_def work_left_def)
  have out: "work_left (e'\<lparr> graph_task := (graph_task e')\<lparr> outstanding_tasks := w \<rparr> \<rparr>)
               = work_left e'" for w and e' :: "'a Engine"
    by (simp add: work_left_def)
  show ?thesis
    using work_left_evaluate_function [of d G task e]
    by (auto simp: thread_main_iteration_def Let_def out exc split: prod.splits option.splits)
qed

lemma work_left_pop_back:
  "pop_back e = Some (task, e1) \<Longrightarrow> work_left e1 < work_left e"
  by (auto simp: pop_back_def work_left_def split: if_splits)

lemma thread_main_decreases:
  "pop_back e = Some (task, e1) \<Longrightarrow> work_left (thread_main_iteration d G task e1) < work_left e"
  using work_left_pop_back [of e task e1] work_left_thread_main_iteration [of d G task e1]
  by simp

text \<open>
  \<^verbatim>\<open>Engine::thread_main\<close>, the worker. The GraphTask mutex, held by \<^verbatim>\<open>execute\<close> until it
  waits, keeps the worker away from the dependency counters until they are computed, so
  the worker is run from the state in which \<^verbatim>\<open>execute\<close> starts to wait. The worker
  itself never returns; the result is the state in which it blocks on the empty queue.
\<close>

function thread_main :: "'v dispatch \<Rightarrow> (addr \<Rightarrow> Function) \<Rightarrow> 'v Engine \<Rightarrow> 'v Engine" where
  "thread_main d G e =
     (case pop_back e of
        None \<Rightarrow> e
      | Some (task, e1) \<Rightarrow> thread_main d G (thread_main_iteration d G task e1))"
  by pat_completeness auto
termination
  by (relation "measure (\<lambda>(d, G, e). work_left e)") (auto dest: thread_main_decreases)

subsection \<open>Preparing an execute\<close>

text \<open>
  \<^verbatim>\<open>Engine::find_roots\<close>, first loop: \<^verbatim>\<open>root_value\<close> maps each root to its InputBuffer
  (a null \<^verbatim>\<open>unique_ptr\<close> until the root is known to be executable). The order in which
  an \<^verbatim>\<open>unordered_map\<close> is traversed is not specified; the map is kept as an association
  list and traversed in the order in which the roots first occur.
\<close>

type_synonym 'v root_value = "(addr \<times> 'v InputBuffer option) list"

definition root_value_entry :: "addr \<Rightarrow> 'v root_value \<Rightarrow> 'v root_value" where
  "root_value_entry root rv = (if root \<in> fst ` set rv then rv else rv @ [(root, None)])"

definition root_value_store ::
  "addr \<Rightarrow> 'v InputBuffer option \<Rightarrow> 'v root_value \<Rightarrow> 'v root_value" where
  "root_value_store root buf rv = map (\<lambda>(k, b). if k = root then (k, buf) else (k, b)) rv"

fun find_roots_collect ::
  "'v dispatch \<Rightarrow> (addr \<Rightarrow> Function) \<Rightarrow> ((addr \<times> int) \<times> 'v option) list \<Rightarrow> 'v root_value
     \<Rightarrow> 'v root_value" where
  "find_roots_collect d G [] rv = rv"
| "find_roots_collect d G (((root, input_nr), input) # rest) rv =
     (let rv1 = root_value_entry root rv
      in if is_executable (G root)
         then
           let buf = (case map_of rv1 root of
                        Some (Some b) \<Rightarrow> b
                      | _ \<Rightarrow> InputBuffer_new (sint (num_inputs (G root))))
           in find_roots_collect d G rest
                (root_value_store root
                   (Some (InputBuffer_add (add_of d) input_nr input buf)) rv1)
         else find_roots_collect d G rest rv1)"

text \<open>
  Second loop, over the entries of \<^verbatim>\<open>root_value\<close>: every root goes into \<^verbatim>\<open>roots\<close>, and every
  executable root is queued with its buffer. An executable root always has a buffer.
\<close>

fun find_roots_enqueue ::
  "(addr \<Rightarrow> Function) \<Rightarrow> 'v root_value \<Rightarrow> addr list \<times> 'v Engine \<Rightarrow> addr list \<times> 'v Engine" where
  "find_roots_enqueue G [] s = s"
| "find_roots_enqueue G ((root, input_buf) # rest) (roots, e) =
     (if \<not> is_executable (G root) then find_roots_enqueue G rest (roots @ [root], e)
      else case input_buf of
             None \<Rightarrow> find_roots_enqueue G rest (roots @ [root], e)
           | Some buf \<Rightarrow>
               let e1 = push_front \<lparr> fn = root, inputs = buf \<rparr> e
               in find_roots_enqueue G rest
                    (roots @ [root],
                     e1\<lparr> graph_task := (graph_task e1)\<lparr> has_any_work := True \<rparr> \<rparr>))"

text \<open>
  \<^verbatim>\<open>Engine::find_roots\<close>. The caller passes one gradient per root: \<^verbatim>\<open>inputs[i]\<close> is read
  for every index of \<^verbatim>\<open>input_roots\<close>.
\<close>

definition find_roots ::
  "'v dispatch \<Rightarrow> (addr \<Rightarrow> Function) \<Rightarrow> (addr \<times> int) list \<Rightarrow> 'v variable_list \<Rightarrow> 'v Engine
     \<Rightarrow> addr list \<times> 'v Engine" where
  "find_roots d G input_roots ins e =
     find_roots_enqueue G
       (find_roots_collect d G
          (map (\<lambda>i. (input_roots ! i, ins ! i)) [0..<length input_roots]) [])
       ([], e)"

text \<open>
  \<^verbatim>\<open>Engine::find_stochastic_functions\<close>: the loop over the edges of one Function, then the
  loop over the search queue. \<^verbatim>\<open>queue\<close> is the caller's vector of roots; the vectors grow
  at the back.
\<close>

fun find_stochastic_edges ::
  "(addr \<Rightarrow> Function) \<Rightarrow> (addr option \<times> int) list
     \<Rightarrow> addr list \<times> 'v Engine \<times> addr set \<times> addr list
     \<Rightarrow> addr list \<times> 'v Engine \<times> addr set \<times> addr list" where
  "find_stochastic_edges G [] s = s"
| "find_stochastic_edges G ((next_fn, input_nr) # rest) (queue, e, seen, search_queue) =
     (case next_fn of
        None \<Rightarrow> find_stochastic_edges G rest (queue, e, seen, search_queue)
      | Some next_ptr \<Rightarrow>
          let (queue1, e1) =
                (if is_stochastic (G next_ptr) \<and> is_executable (G next_ptr) \<and> next_ptr \<notin> seen
                 then
                   let e' = push_front \<lparr> fn = next_ptr, inputs = InputBuffer_new 0 \<rparr> e
                   in (queue @ [next_ptr],
                       e'\<lparr> graph_task := (graph_task e')\<lparr> has_any_work := True \<rparr> \<rparr>)
                 else (queue, e));
              (seen1, search_queue1) =
                (if next_ptr \<notin> seen then (insert next_ptr seen, search_queue @ [next_ptr])
                 else (seen, search_queue))
          in find_stochastic_edges G rest (queue1, e1, seen1, search_queue1))"

partial_function (option) find_stochastic_loop ::
  "(addr \<Rightarrow> Function) \<Rightarrow> addr list \<Rightarrow> 'v Engine \<Rightarrow> addr set \<Rightarrow> addr list
     \<Rightarrow> (addr list \<times> 'v Engine) option" where
  "find_stochastic_loop G queue e seen search_queue =
     (if search_queue = [] then Some (queue, e)
      else
        case find_stochastic_edges G (next_functions (G (last search_queue)))
               (queue, e, seen, butlast search_queue) of
          (queue1, e1, seen1, search_queue1) \<Rightarrow>
            find_stochastic_loop G queue1 e1 seen1 search_queue1)"

declare find_stochastic_loop.simps [code]

definition find_stochastic_functions ::
  "(addr \<Rightarrow> Function) \<Rightarrow> addr list \<Rightarrow> 'v Engine \<Rightarrow> (addr list \<times> 'v Engine) option" where
  "find_stochastic_functions G queue e = find_stochastic_loop G queue e {} queue"

text \<open>
  \<^verbatim>\<open>Engine::compute_dependencies\<close>: the loop over the edges of one Function, then the loop
  over the queue. \<^verbatim>\<open>dependencies[next_ptr] += 1\<close> starts a missing entry at 0.
\<close>

fun compute_dependencies_edges ::
  "(addr \<Rightarrow> Function) \<Rightarrow> (addr option \<times> int) list
     \<Rightarrow> (addr \<times> int) list \<times> addr set \<times> addr list
     \<Rightarrow> (addr \<times> int) list \<times> addr set \<times> addr list" where
  "compute_dependencies_edges G [] s = s"
| "compute_dependencies_edges G ((next_fn, input_nr) # rest) (deps, seen, queue) =
     (case next_fn of
        None \<Rightarrow> compute_dependencies_edges G rest (deps, seen, queue)
      | Some next_ptr \<Rightarrow>
          if \<not> is_executable (G next_ptr)
          then compute_dependencies_edges G rest (deps, seen, queue)
          else if is_stochastic (G next_ptr)
          then compute_dependencies_edges G rest (deps, seen, queue)
          else
            let deps1 = AList.update next_ptr
                          ((case map_of deps next_ptr of None \<Rightarrow> 0 | Some n \<Rightarrow> n) + 1) deps
            in if next_ptr \<notin> seen
               then compute_dependencies_edges G rest
                      (deps1, insert next_ptr seen, queue @ [next_ptr])
               else compute_dependencies_edges G rest (deps1, seen, queue))"

partial_function (option) compute_dependencies_loop ::
  "(addr \<Rightarrow> Function) \<Rightarrow> addr list \<Rightarrow> addr set \<Rightarrow> (addr \<times> int) list
     \<Rightarrow> (addr \<times> int) list option" where
  "compute_dependencies_loop G queue seen deps =
     (if queue = [] then Some deps
      else if \<not> is_executable (G (last queue))
      then compute_dependencies_loop G (butlast queue) seen deps
      else
        case compute_dependencies_edges G (next_functions (G (last queue)))
               (deps, seen, butlast queue) of
          (deps1, seen1, queue1) \<Rightarrow> compute_dependencies_loop G queue1 seen1 deps1)"

declare compute_dependencies_loop.simps [code]

definition compute_dependencies ::
  "(addr \<Rightarrow> Function) \<Rightarrow> addr list \<Rightarrow> 'v GraphTask \<Rightarrow> 'v GraphTask option" where
  "compute_dependencies G queue task =
     (case compute_dependencies_loop G queue (set queue) (dependencies task) of
        None \<Rightarrow> None
      | Some deps \<Rightarrow> Some (task\<lparr> dependencies := deps \<rparr>))"

subsection \<open>execute\<close>

text \<open>
  \<^verbatim>\<open>Engine::execute\<close>. The result is \<open>None\<close> when the call does not return (a loop runs
  forever, or \<^verbatim>\<open>outstanding_tasks\<close> is not zero once the worker is idle); otherwise the
  exception it throws, if any, and the final state. \<^verbatim>\<open>find_roots\<close> reads \<^verbatim>\<open>inputs[i]\<close> for
  every index of \<^verbatim>\<open>input_roots\<close>: with fewer inputs than roots it reads past the end of the
  vector.
\<close>

definition execute ::
  "'v dispatch \<Rightarrow> (addr \<Rightarrow> Function) \<Rightarrow> (addr \<times> int) list \<Rightarrow> 'v variable_list \<Rightarrow> bool
     \<Rightarrow> 'v callback_map \<Rightarrow> (error option \<times> 'v Engine) option" where
  "execute d G input_roots ins kg callbacks =
     (let e0 = \<lparr> ready_queue = [], graph_task = GraphTask_new kg callbacks, calls = [] \<rparr>
      in if length ins < length input_roots then Some (Some UndefinedBehaviour, e0)
         else
           let (roots, e1) = find_roots d G input_roots ins e0
           in case find_stochastic_functions G roots e1 of
                None \<Rightarrow> None
              | Some (roots1, e2) \<Rightarrow>
                  if \<not> has_any_work (graph_task e2) then Some (Some NoExecutableRoots, e2)
                  else
                    case compute_dependencies G roots1 (graph_task e2) of
                      None \<Rightarrow> None
                    | Some task \<Rightarrow>
                        (let e3 = thread_main d G (e2\<lparr> graph_task := task \<rparr>)
                         in if outstanding_tasks (graph_task e3) \<noteq> 0 then None
                            else if has_error (graph_task e3)
                            then Some (exception (graph_task e3), e3)
                            else if not_ready (graph_task e3) \<noteq> []
                            then Some (Some UncomputedDependencies, e3)
                            else Some (None, e3)))"

section \<open>Reachability, dependency counts and the worker\<close>

subsection \<open>What \<^verbatim>\<open>compute_dependencies\<close> computes\<close>

text \<open>
  The number of edges of an edge list that point at the Function \<open>t\<close>.
\<close>

definition edge_mult :: "(addr option \<times> int) list \<Rightarrow> addr \<Rightarrow> nat" where
  "edge_mult es t = length (filter (\<lambda>(p, nr). p = Some t) es)"

text \<open>
  A Function takes a dependency entry when it is executable and not stochastic.
\<close>

definition counted :: "(addr \<Rightarrow> Function) \<Rightarrow> addr \<Rightarrow> bool" where
  "counted G t \<longleftrightarrow> is_executable (G t) \<and> \<not> is_stochastic (G t)"

text \<open>
  The Functions that the dependency computation reaches from a frontier \<open>F\<close>: the
  frontier itself, and every target that takes a dependency entry of an edge out of a
  reached executable Function.
\<close>

inductive_set dep_reach :: "(addr \<Rightarrow> Function) \<Rightarrow> addr set \<Rightarrow> addr set"
  for G :: "addr \<Rightarrow> Function" and F :: "addr set" where
  frontier: "f \<in> F \<Longrightarrow> f \<in> dep_reach G F"
| edge: "s \<in> dep_reach G F \<Longrightarrow> is_executable (G s)
         \<Longrightarrow> (Some t, nr) \<in> set (next_functions (G s)) \<Longrightarrow> counted G t
         \<Longrightarrow> t \<in> dep_reach G F"

text \<open>
  The number of edges that point at \<open>t\<close> from the executable Functions of a set \<open>S\<close>,
  for a target that takes a dependency entry; no other target is counted.
\<close>

definition in_count :: "(addr \<Rightarrow> Function) \<Rightarrow> addr set \<Rightarrow> addr \<Rightarrow> nat" where
  "in_count G S t =
     (if counted G t
      then (\<Sum>s \<in> {s \<in> S. is_executable (G s)}. edge_mult (next_functions (G s)) t)
      else 0)"

text \<open>
  A count as the \<^verbatim>\<open>dependencies\<close> map holds it: no entry for the count 0.
\<close>

definition dependency_entry :: "nat \<Rightarrow> int option" where
  "dependency_entry n = (if n = 0 then None else Some (int n))"

lemma edge_mult_simps [simp]:
  "edge_mult [] t = 0"
  "edge_mult ((p, nr) # es) t = (if p = Some t then Suc (edge_mult es t) else edge_mult es t)"
  by (simp_all add: edge_mult_def)

lemma edge_mult_pos: "0 < edge_mult es t \<longleftrightarrow> (\<exists>nr. (Some t, nr) \<in> set es)"
  by (induction es) (auto simp: edge_mult_def)

lemma compute_dependencies_edges_spec:
  assumes "\<forall>t. map_of deps t = dependency_entry (c t)"
  shows "\<exists>deps' new.
      compute_dependencies_edges G es (deps, seen, queue)
        = (deps', seen \<union> {t. counted G t \<and> 0 < edge_mult es t}, queue @ new)
      \<and> (\<forall>t. map_of deps' t = dependency_entry (c t + (if counted G t then edge_mult es t else 0)))
      \<and> distinct new \<and> set new = {t. counted G t \<and> 0 < edge_mult es t} - seen"
  using assms
proof (induction es arbitrary: deps seen queue c)
  case Nil
  then show ?case by simp
next
  case (Cons a es)
  obtain p nr where a: "a = (p, nr)" by (cases a)
  show ?case
  proof (cases "\<exists>t. p = Some t \<and> counted G t")
    case False
    then have skip: "compute_dependencies_edges G (a # es) (deps, seen, queue)
        = compute_dependencies_edges G es (deps, seen, queue)"
      using a by (cases p) (auto simp: counted_def)
    have same: "(counted G t \<and> 0 < edge_mult (a # es) t) = (counted G t \<and> 0 < edge_mult es t)"
               "(if counted G t then edge_mult (a # es) t else 0)
                  = (if counted G t then edge_mult es t else 0)" for t
      using False a by auto
    show ?thesis
      using Cons.IH [OF Cons.prems, of seen queue] by (simp add: skip same)
  next
    case True
    then obtain t0 where t0: "p = Some t0" "counted G t0" by blast
    let ?deps1 = "AList.update t0 ((case map_of deps t0 of None \<Rightarrow> 0 | Some n \<Rightarrow> n) + 1) deps"
    let ?c1 = "c(t0 := Suc (c t0))"
    have d1: "\<forall>t. map_of ?deps1 t = dependency_entry (?c1 t)"
      using Cons.prems by (auto simp: update_conv' dependency_entry_def)
    have step: "compute_dependencies_edges G (a # es) (deps, seen, queue)
        = compute_dependencies_edges G es
            (?deps1, insert t0 seen, if t0 \<in> seen then queue else queue @ [t0])"
      using a t0 by (auto simp: counted_def Let_def insert_absorb)
    obtain deps' new where r:
      "compute_dependencies_edges G es
         (?deps1, insert t0 seen, if t0 \<in> seen then queue else queue @ [t0])
        = (deps', insert t0 seen \<union> {t. counted G t \<and> 0 < edge_mult es t},
           (if t0 \<in> seen then queue else queue @ [t0]) @ new)"
      "\<forall>t. map_of deps' t = dependency_entry (?c1 t + (if counted G t then edge_mult es t else 0))"
      "distinct new" "set new = {t. counted G t \<and> 0 < edge_mult es t} - insert t0 seen"
      using Cons.IH [OF d1, of "insert t0 seen" "if t0 \<in> seen then queue else queue @ [t0]"]
      by blast
    let ?new = "(if t0 \<in> seen then [] else [t0]) @ new"
    have s1: "insert t0 seen \<union> {t. counted G t \<and> 0 < edge_mult es t}
              = seen \<union> {t. counted G t \<and> 0 < edge_mult (a # es) t}"
      using a t0 by auto
    have s2: "(if t0 \<in> seen then queue else queue @ [t0]) @ new = queue @ ?new"
      by simp
    have s3: "\<forall>t. map_of deps' t
                = dependency_entry (c t + (if counted G t then edge_mult (a # es) t else 0))"
      using r(2) a t0 by auto
    have s4: "distinct ?new" using r(3,4) by auto
    have s5: "set ?new = {t. counted G t \<and> 0 < edge_mult (a # es) t} - seen"
      using r(4) a t0 by auto
    show ?thesis
      using step r(1) s1 s2 s3 s4 s5 by (metis (no_types, lifting))
  qed
qed


text \<open>
  The state of the loop of \<^verbatim>\<open>compute_dependencies\<close>: the Functions seen and no longer
  queued have been expanded, and the map counts exactly their edges.
\<close>

definition counting_invariant ::
  "(addr \<Rightarrow> Function) \<Rightarrow> addr set \<Rightarrow> addr list \<Rightarrow> addr set \<Rightarrow> (addr \<times> int) list \<Rightarrow> bool" where
  "counting_invariant G F queue seen deps \<longleftrightarrow>
     distinct queue \<and> set queue \<subseteq> seen \<and> F \<subseteq> seen \<and> seen \<subseteq> dep_reach G F
     \<and> (\<forall>t. map_of deps t = dependency_entry (in_count G (seen - set queue) t))
     \<and> (\<forall>s \<in> seen - set queue. is_executable (G s) \<longrightarrow>
           (\<forall>t. counted G t \<and> 0 < edge_mult (next_functions (G s)) t \<longrightarrow> t \<in> seen))"

lemma in_count_insert:
  assumes "finite P" "s \<notin> P"
  shows "in_count G (insert s P) t
           = in_count G P t
             + (if counted G t \<and> is_executable (G s) then edge_mult (next_functions (G s)) t
                else 0)"
proof (cases "is_executable (G s)")
  case True
  then have "{x \<in> insert s P. is_executable (G x)} = insert s {x \<in> P. is_executable (G x)}"
    by auto
  with assms True show ?thesis by (simp add: in_count_def)
next
  case False
  then have "{x \<in> insert s P. is_executable (G x)} = {x \<in> P. is_executable (G x)}"
    by auto
  with False show ?thesis by (simp add: in_count_def)
qed

lemma counting_invariant_closed:
  assumes "counting_invariant G F [] seen deps"
  shows "seen = dep_reach G F"
proof
  show "seen \<subseteq> dep_reach G F" using assms by (simp add: counting_invariant_def)
  show "dep_reach G F \<subseteq> seen"
  proof
    fix x assume "x \<in> dep_reach G F"
    then show "x \<in> seen"
    proof (induction rule: dep_reach.induct)
      case (frontier f)
      with assms show ?case by (auto simp: counting_invariant_def)
    next
      case (edge s t nr)
      then have "0 < edge_mult (next_functions (G s)) t"
        by (auto simp: edge_mult_pos)
      with edge assms show ?case by (auto simp: counting_invariant_def)
    qed
  qed
qed

lemma compute_dependencies_loop_correct:
  assumes fin: "finite (dep_reach G F)"
  shows "counting_invariant G F queue seen deps \<Longrightarrow>
    \<exists>deps'. compute_dependencies_loop G queue seen deps = Some deps'
       \<and> (\<forall>t. map_of deps' t = dependency_entry (in_count G (dep_reach G F) t))"
proof (induction "2 * card (dep_reach G F - seen) + length queue"
         arbitrary: queue seen deps rule: less_induct)
  case less
  note inv = less.prems
  show ?case
  proof (cases "queue = []")
    case True
    with inv have "seen = dep_reach G F" using counting_invariant_closed by blast
    with True inv show ?thesis
      by (subst compute_dependencies_loop.simps) (simp add: counting_invariant_def)
  next
    case False
    define s where "s = last queue"
    define q where "q = butlast queue"
    have queue: "queue = q @ [s]" using False by (simp add: s_def q_def)
    have dq: "distinct q" "s \<notin> set q" "set q \<subseteq> seen" "s \<in> seen"
      using inv queue by (auto simp: counting_invariant_def)
    have finseen: "finite seen" using inv fin by (auto simp: counting_invariant_def intro: finite_subset)
    let ?P = "seen - set queue"
    have P: "seen - set q = insert s ?P" "s \<notin> ?P" "finite ?P"
      using dq queue finseen by auto
    show ?thesis
    proof (cases "is_executable (G s)")
      case False
      have inv': "counting_invariant G F q seen deps"
        using inv dq P False by (auto simp: counting_invariant_def in_count_insert)
      have "2 * card (dep_reach G F - seen) + length q
              < 2 * card (dep_reach G F - seen) + length queue"
        using queue by simp
      from less.hyps [OF this inv'] obtain deps' where
        "compute_dependencies_loop G q seen deps = Some deps'"
        "\<forall>t. map_of deps' t = dependency_entry (in_count G (dep_reach G F) t)" by blast
      with False \<open>queue \<noteq> []\<close> show ?thesis
        by (subst compute_dependencies_loop.simps) (simp add: s_def q_def)
    next
      case True
      let ?es = "next_functions (G s)"
      let ?T = "{t. counted G t \<and> 0 < edge_mult ?es t}"
      have c: "\<forall>t. map_of deps t = dependency_entry (in_count G ?P t)"
        using inv by (simp add: counting_invariant_def)
      obtain deps1 new where r:
        "compute_dependencies_edges G ?es (deps, seen, q) = (deps1, seen \<union> ?T, q @ new)"
        "\<forall>t. map_of deps1 t
           = dependency_entry (in_count G ?P t + (if counted G t then edge_mult ?es t else 0))"
        "distinct new" "set new = ?T - seen"
        using compute_dependencies_edges_spec [OF c, of G ?es seen q] by blast
      have T: "?T \<subseteq> dep_reach G F"
      proof
        fix t assume "t \<in> ?T"
        then obtain nr where "(Some t, nr) \<in> set ?es" "counted G t"
          by (auto simp: edge_mult_pos)
        moreover have "s \<in> dep_reach G F" using inv dq by (auto simp: counting_invariant_def)
        ultimately show "t \<in> dep_reach G F"
          using True dep_reach.edge by blast
      qed
      have P': "(seen \<union> ?T) - set (q @ new) = insert s ?P"
        using r(4) dq queue by auto
      have inv': "counting_invariant G F (q @ new) (seen \<union> ?T) deps1"
        unfolding counting_invariant_def
      proof (intro conjI)
        show "distinct (q @ new)" using dq r(3,4) by auto
        show "set (q @ new) \<subseteq> seen \<union> ?T" using dq r(4) by auto
        show "F \<subseteq> seen \<union> ?T" using inv by (auto simp: counting_invariant_def)
        show "seen \<union> ?T \<subseteq> dep_reach G F" using inv T by (auto simp: counting_invariant_def)
        show "\<forall>t. map_of deps1 t = dependency_entry (in_count G ((seen \<union> ?T) - set (q @ new)) t)"
          unfolding P' using r(2) True in_count_insert [OF P(3) P(2), of G] by simp
        show "\<forall>s' \<in> (seen \<union> ?T) - set (q @ new). is_executable (G s') \<longrightarrow>
                (\<forall>t. counted G t \<and> 0 < edge_mult (next_functions (G s')) t
                      \<longrightarrow> t \<in> seen \<union> ?T)"
          unfolding P' using inv by (auto simp: counting_invariant_def)
      qed
      have finR: "finite (dep_reach G F - seen)" using fin by simp
      have sub: "?T - seen \<subseteq> dep_reach G F - seen" using T by auto
      have "dep_reach G F - (seen \<union> ?T) = (dep_reach G F - seen) - (?T - seen)" by auto
      then have card: "card (dep_reach G F - (seen \<union> ?T))
                        = card (dep_reach G F - seen) - card (?T - seen)"
        using card_Diff_subset [OF _ sub] finite_subset [OF sub finR] by simp
      have le: "card (?T - seen) \<le> card (dep_reach G F - seen)"
        using card_mono [OF finR sub] .
      have len: "length new = card (?T - seen)"
        using r(3,4) distinct_card by fastforce
      have "2 * card (dep_reach G F - (seen \<union> ?T)) + length (q @ new)
              < 2 * card (dep_reach G F - seen) + length queue"
        using card le len queue by simp
      from less.hyps [OF this inv'] obtain deps' where
        "compute_dependencies_loop G (q @ new) (seen \<union> ?T) deps1 = Some deps'"
        "\<forall>t. map_of deps' t = dependency_entry (in_count G (dep_reach G F) t)" by blast
      with True \<open>queue \<noteq> []\<close> r(1) show ?thesis
        by (subst compute_dependencies_loop.simps) (simp add: s_def q_def)
    qed
  qed
qed

lemma compute_dependencies_loop_frontier:
  assumes "finite (dep_reach G (set queue))" "distinct queue"
  shows "\<exists>deps'. compute_dependencies_loop G queue (set queue) [] = Some deps'
       \<and> (\<forall>t. map_of deps' t = dependency_entry (in_count G (dep_reach G (set queue)) t))"
proof -
  have "counting_invariant G (set queue) queue (set queue) []"
    using assms(2) by (auto simp: counting_invariant_def in_count_def dependency_entry_def intro: dep_reach.frontier)
  then show ?thesis
    using compute_dependencies_loop_correct [OF assms(1)] by blast
qed



subsection \<open>Routing the outputs of one Function\<close>

text \<open>What routing the outputs of a Function leaves alone.\<close>

definition same_task :: "'v Engine \<Rightarrow> 'v Engine \<Rightarrow> bool" where
  "same_task e e' \<longleftrightarrow>
     calls e' = calls e
     \<and> has_error (graph_task e') = has_error (graph_task e)
     \<and> exception (graph_task e') = exception (graph_task e)
     \<and> keep_graph (graph_task e') = keep_graph (graph_task e)
     \<and> function_callbacks (graph_task e') = function_callbacks (graph_task e)"

lemma route_output_skip:
  assumes "\<not> (\<exists>t. p = Some t \<and> counted G t)"
  shows "route_output d G (out, p, nr) e = (None, e)"
  using assms by (cases p) (auto simp: route_output_def counted_def)

lemma route_output_step:
  assumes t: "counted G t"
    and deps: "\<forall>x. map_of (dependencies (graph_task e)) x = dependency_entry (c x)"
    and pos: "0 < c t"
    and nr: "fst ` set (not_ready (graph_task e)) \<subseteq> {x. 0 < c x}"
  shows "\<exists>e' new. route_output d G (out, Some t, nr) e = (None, e')
      \<and> (\<forall>x. map_of (dependencies (graph_task e')) x = dependency_entry ((c(t := c t - 1)) x))
      \<and> fst ` set (not_ready (graph_task e')) \<subseteq> {x. 0 < (c(t := c t - 1)) x}
      \<and> ready_queue e' = new @ ready_queue e
      \<and> map fn new = (if c t = 1 then [t] else [])
      \<and> outstanding_tasks (graph_task e')
          = outstanding_tasks (graph_task e) + of_nat (length new)
      \<and> same_task e e'"
proof -
  have look: "map_of (dependencies (graph_task e)) t = Some (int (c t))"
    using deps pos by (simp add: dependency_entry_def)
  have ready: "(int (c t) - 1 = 0) = (c t = 1)" using pos by auto
  have d_del: "\<forall>x. map_of (AList.delete t (dependencies (graph_task e))) x
                 = dependency_entry ((c(t := c t - 1)) x)" if "c t = 1"
    using deps that by (auto simp: delete_conv' dependency_entry_def)
  have d_upd: "\<forall>x. map_of (AList.update t (int (c t) - 1) (dependencies (graph_task e))) x
                 = dependency_entry ((c(t := c t - 1)) x)" if "c t \<noteq> 1"
    using deps that pos by (auto simp: update_conv' dependency_entry_def)
  have k_del: "fst ` set (AList.delete t al) \<subseteq> {x. 0 < (c(t := c t - 1)) x}"
    if "fst ` set al \<subseteq> {x. 0 < c x}" for al :: "(addr \<times> 'a InputBuffer) list"
    using that by (auto simp: AList.delete_eq)
  have k_upd: "fst ` set (AList.update t b al) \<subseteq> {x. 0 < (c(t := c t - 1)) x}"
    if "fst ` set al \<subseteq> {x. 0 < c x}" "c t \<noteq> 1" for al :: "(addr \<times> 'a InputBuffer) list" and b
    using that pos by (auto simp: dom_update image_iff dest!: subsetD)
  have k_same: "fst ` set al \<subseteq> {x. 0 < (c(t := c t - 1)) x}"
    if "fst ` set al \<subseteq> {x. 0 < c x}" "map_of al t = None" for al :: "(addr \<times> 'a InputBuffer) list"
    using that by (auto simp: map_of_eq_None_iff)
  show ?thesis
  proof (cases "c t = 1")
    case True
    show ?thesis
    proof (cases "map_of (not_ready (graph_task e)) t")
      case None
      show ?thesis
        using t look True None d_del [OF True] k_same [OF nr None]
        by (auto simp: route_output_def counted_def Let_def push_front_def same_task_def
              intro!: exI [of _ "[\<lparr> fn = t, inputs = X \<rparr>]" for X])
    next
      case (Some buf)
      show ?thesis
        using t look True Some d_del [OF True] k_del [OF nr]
        by (auto simp: route_output_def counted_def Let_def push_front_def same_task_def
              intro!: exI [of _ "[\<lparr> fn = t, inputs = X \<rparr>]" for X])
    qed
  next
    case False
    then have nready: "int (c t) - 1 \<noteq> 0" using ready by simp
    show ?thesis
    proof (cases "map_of (not_ready (graph_task e)) t")
      case None
      show ?thesis
        using t look False nready None d_upd [OF False] k_upd [OF nr False]
        by (auto simp: route_output_def counted_def Let_def same_task_def)
    next
      case (Some buf)
      show ?thesis
        using t look False nready Some d_upd [OF False] k_upd [OF nr False]
        by (auto simp: route_output_def counted_def Let_def same_task_def)
    qed
  qed
qed


lemma same_task_refl [simp]: "same_task e e"
  by (simp add: same_task_def)

lemma same_task_trans: "same_task e e1 \<Longrightarrow> same_task e1 e2 \<Longrightarrow> same_task e e2"
  by (simp add: same_task_def)

lemma route_outputs_spec:
  assumes len: "length outs = length es"
    and deps: "\<forall>x. map_of (dependencies (graph_task e)) x = dependency_entry (c x)"
    and enough: "\<forall>x. counted G x \<longrightarrow> edge_mult es x \<le> c x"
    and nr: "fst ` set (not_ready (graph_task e)) \<subseteq> {x. 0 < c x}"
  shows "\<exists>e' new. route_outputs d G (zip outs es) e = (None, e')
      \<and> (\<forall>x. map_of (dependencies (graph_task e')) x
               = dependency_entry (c x - (if counted G x then edge_mult es x else 0)))
      \<and> fst ` set (not_ready (graph_task e'))
           \<subseteq> {x. 0 < c x - (if counted G x then edge_mult es x else 0)}
      \<and> ready_queue e' = new @ ready_queue e
      \<and> distinct (map fn new)
      \<and> set (map fn new) = {x. counted G x \<and> 0 < edge_mult es x \<and> c x = edge_mult es x}
      \<and> outstanding_tasks (graph_task e')
          = outstanding_tasks (graph_task e) + of_nat (length new)
      \<and> same_task e e'"
  using assms
proof (induction es arbitrary: outs e c)
  case Nil
  then show ?case by simp
next
  case (Cons a es)
  obtain p nr where a: "a = (p, nr)" by (cases a)
  obtain out outs' where outs: "outs = out # outs'" "length outs' = length es"
    using Cons.prems(1) by (cases outs) auto
  show ?case
  proof (cases "\<exists>t. p = Some t \<and> counted G t")
    case False
    have skip: "route_outputs d G (zip outs (a # es)) e = route_outputs d G (zip outs' es) e"
      using route_output_skip [OF False, where d = d and out = out and nr = nr and e = e] a outs
      by simp
    have same: "(if counted G x then edge_mult (a # es) x else 0)
                  = (if counted G x then edge_mult es x else 0)"
               "(counted G x \<and> 0 < edge_mult (a # es) x \<and> c x = edge_mult (a # es) x)
                  = (counted G x \<and> 0 < edge_mult es x \<and> c x = edge_mult es x)" for x
      using False a by auto
    have enough': "\<forall>x. counted G x \<longrightarrow> edge_mult es x \<le> c x"
      using Cons.prems(3) same(1) by (metis (full_types))
    show ?thesis
      using Cons.IH [OF outs(2) Cons.prems(2) enough' Cons.prems(4)]
      by (simp add: skip same)
  next
    case True
    then obtain t where t: "p = Some t" "counted G t" by blast
    have en: "edge_mult (a # es) x \<le> c x" if "counted G x" for x
      using Cons.prems(3) that by blast
    have pos: "0 < c t"
      using en [OF t(2)] t a by simp
    let ?c1 = "c(t := c t - 1)"
    obtain e1 new1 where s1:
      "route_output d G (out, Some t, nr) e = (None, e1)"
      "\<forall>x. map_of (dependencies (graph_task e1)) x = dependency_entry (?c1 x)"
      "fst ` set (not_ready (graph_task e1)) \<subseteq> {x. 0 < ?c1 x}"
      "ready_queue e1 = new1 @ ready_queue e"
      "map fn new1 = (if c t = 1 then [t] else [])"
      "outstanding_tasks (graph_task e1)
         = outstanding_tasks (graph_task e) + of_nat (length new1)"
      "same_task e e1"
      using route_output_step [OF t(2) Cons.prems(2) pos Cons.prems(4),
              where d = d and out = out and nr = nr] by blast
    have enough1: "\<forall>x. counted G x \<longrightarrow> edge_mult es x \<le> ?c1 x"
    proof (intro allI impI)
      fix x assume "counted G x"
      from en [OF this] show "edge_mult es x \<le> ?c1 x"
        using t a by (cases "x = t") (auto split: if_splits)
    qed
    obtain e' new where s2:
      "route_outputs d G (zip outs' es) e1 = (None, e')"
      "\<forall>x. map_of (dependencies (graph_task e')) x
           = dependency_entry (?c1 x - (if counted G x then edge_mult es x else 0))"
      "fst ` set (not_ready (graph_task e'))
           \<subseteq> {x. 0 < ?c1 x - (if counted G x then edge_mult es x else 0)}"
      "ready_queue e' = new @ ready_queue e1"
      "distinct (map fn new)"
      "set (map fn new) = {x. counted G x \<and> 0 < edge_mult es x \<and> ?c1 x = edge_mult es x}"
      "outstanding_tasks (graph_task e')
          = outstanding_tasks (graph_task e1) + of_nat (length new)"
      "same_task e1 e'"
      using Cons.IH [OF outs(2) s1(2) enough1 s1(3)] by blast
    have run: "route_outputs d G (zip outs (a # es)) e = (None, e')"
      using s1(1) s2(1) a t outs by simp
    have c1: "?c1 x - (if counted G x then edge_mult es x else 0)
               = c x - (if counted G x then edge_mult (a # es) x else 0)" for x
      using a t by auto
    have len1: "length new1 = (if c t = 1 then 1 else 0)"
      using s1(5) by (metis length_map list.size(3) length_Cons One_nat_def)
    have tnew: "t \<in> set (map fn new) \<longleftrightarrow> 1 < c t \<and> c t = Suc (edge_mult es t)"
      using s2(6) t pos by auto
    have d: "distinct (map fn (new @ new1))"
      using s2(5) s1(5) tnew by (auto split: if_splits)
    have st: "set (map fn (new @ new1))
        = {x. counted G x \<and> 0 < edge_mult (a # es) x \<and> c x = edge_mult (a # es) x}"
    proof -
      have other: "x \<noteq> t \<Longrightarrow> x \<in> set (map fn (new @ new1)) \<longleftrightarrow>
          counted G x \<and> 0 < edge_mult (a # es) x \<and> c x = edge_mult (a # es) x" for x
        using s2(6) s1(5) a t by (auto split: if_splits)
      have this_t: "t \<in> set (map fn (new @ new1)) \<longleftrightarrow>
          counted G t \<and> 0 < edge_mult (a # es) t \<and> c t = edge_mult (a # es) t"
      proof (cases "c t = 1")
        case True
        with en [OF t(2)] t a have "edge_mult es t = 0" by simp
        with True s1(5) t a show ?thesis by auto
      next
        case False
        with s1(5) tnew pos t a show ?thesis by auto
      qed
      have "x \<in> set (map fn (new @ new1)) \<longleftrightarrow>
          counted G x \<and> 0 < edge_mult (a # es) x \<and> c x = edge_mult (a # es) x" for x
        using other [of x] this_t by (cases "x = t") simp_all
      then show ?thesis by blast
    qed
    show ?thesis
    proof (intro exI [of _ e'] exI [of _ "new @ new1"] conjI)
      show "route_outputs d G (zip outs (a # es)) e = (None, e')" by (rule run)
      show "\<forall>x. map_of (dependencies (graph_task e')) x
               = dependency_entry (c x - (if counted G x then edge_mult (a # es) x else 0))"
        using s2(2) unfolding c1 .
      show "fst ` set (not_ready (graph_task e'))
              \<subseteq> {x. 0 < c x - (if counted G x then edge_mult (a # es) x else 0)}"
        using s2(3) unfolding c1 .
      show "ready_queue e' = (new @ new1) @ ready_queue e" using s2(4) s1(4) by simp
      show "distinct (map fn (new @ new1))" by (rule d)
      show "set (map fn (new @ new1))
              = {x. counted G x \<and> 0 < edge_mult (a # es) x \<and> c x = edge_mult (a # es) x}"
        by (rule st)
      show "outstanding_tasks (graph_task e')
              = outstanding_tasks (graph_task e) + of_nat (length (new @ new1))"
        using s2(7) s1(6) by simp
      show "same_task e e'" by (rule same_task_trans [OF s1(7) s2(8)])
    qed
  qed
qed

subsection \<open>The worker applies every Function at most once\<close>

text \<open>
  A Function behaves when its pre-hooks, its \<^verbatim>\<open>apply\<close> and its post-hooks return
  without throwing, for any inputs, with as many outputs as the Function has edges, and
  no callback of the execute rejects it. The Functions of a set all behave when each one
  does.
\<close>

definition behaved :: "'v dispatch \<Rightarrow> (addr \<Rightarrow> Function) \<Rightarrow> 'v callback_map \<Rightarrow> addr \<Rightarrow> bool" where
  "behaved d G callbacks f \<longleftrightarrow>
     (\<forall>ins. \<exists>ins' outs outs'.
        call_pre_hooks d (pre_hooks (G f)) ins = Inr ins'
        \<and> (\<forall>callback. callbacks f = Some callback \<longrightarrow> callback f ins')
        \<and> apply_of d f ins' = Inr outs
        \<and> call_post_hooks d (post_hooks (G f)) outs ins' = Inr outs'
        \<and> length outs' = length (next_functions (G f)))"

definition all_behave ::
  "'v dispatch \<Rightarrow> (addr \<Rightarrow> Function) \<Rightarrow> 'v callback_map \<Rightarrow> addr set \<Rightarrow> bool" where
  "all_behave d G callbacks A \<longleftrightarrow> (\<forall>f \<in> A. behaved d G callbacks f)"

text \<open>
  A callback map always rejects a Function when its callback for the Function returns
  false whatever the inputs are. A Function always fails when, whatever its inputs are,
  its \<^verbatim>\<open>apply\<close> throws, or its post-hooks throw, or the outputs are not one per edge.
\<close>

definition always_rejected :: "'v callback_map \<Rightarrow> addr \<Rightarrow> bool" where
  "always_rejected callbacks f \<longleftrightarrow>
     (case callbacks f of None \<Rightarrow> False | Some callback \<Rightarrow> \<forall>ins. \<not> callback f ins)"

definition always_fails :: "'v dispatch \<Rightarrow> (addr \<Rightarrow> Function) \<Rightarrow> addr \<Rightarrow> bool" where
  "always_fails d G f \<longleftrightarrow>
     (\<forall>ins. case apply_of d f ins of
              Inl err \<Rightarrow> True
            | Inr outs \<Rightarrow>
                (case call_post_hooks d (post_hooks (G f)) outs ins of
                   Inl err \<Rightarrow> True
                 | Inr outs' \<Rightarrow> length outs' \<noteq> length (next_functions (G f))))"

text \<open>
  The Functions whose \<^verbatim>\<open>apply\<close> was invoked, in order, read off the calls.
\<close>

fun applied :: "call list \<Rightarrow> addr list" where
  "applied [] = []"
| "applied (Apply f # cs) = f # applied cs"
| "applied (ReleaseVariables f # cs) = applied cs"

lemma applied_append [simp]: "applied (xs @ ys) = applied xs @ applied ys"
  by (induction xs rule: applied.induct) auto

lemma count_applied: "count_list cs (Apply f) = count_list (applied cs) f"
  by (induction cs rule: applied.induct) auto

text \<open>
  What evaluating one task does before the outputs are routed: the calls \<open>cs\<close> it makes
  invoke \<^verbatim>\<open>apply\<close> of the Function of the task once or not at all; then either an
  exception leaves \<^verbatim>\<open>evaluate_function\<close>, or there is one output per edge to route.
\<close>

lemma evaluate_function_cases:
  "\<exists>cs. (applied cs = []
         \<or> applied cs = [fn task]
            \<and> \<not> always_rejected (function_callbacks (graph_task e)) (fn task))
      \<and> ((\<exists>err. evaluate_function d G task e = (Some err, e\<lparr> calls := calls e @ cs \<rparr>)
               \<and> \<not> behaved d G (function_callbacks (graph_task e)) (fn task))
          \<or> (\<exists>outs. length outs = length (next_functions (G (fn task)))
               \<and> evaluate_function d G task e
                   = route_outputs d G (zip outs (next_functions (G (fn task))))
                       (e\<lparr> calls := calls e @ cs \<rparr>)
               \<and> (applied cs = [fn task] \<longrightarrow> \<not> always_fails d G (fn task))
               \<and> (behaved d G (function_callbacks (graph_task e)) (fn task)
                      \<longrightarrow> applied cs = [fn task])))"
proof -
  obtain s where s_def: "fn task = s" by simp
  define es where "es = next_functions (G s)"
  define cbs where "cbs = function_callbacks (graph_task e)"
  define buf where "buf = InputBuffer_variables (zero_of d) (inputs task)"
  define rel where "rel = (if \<not> keep_graph (graph_task e) then [ReleaseVariables s] else [])"
  have rel: "applied rel = []" by (simp add: rel_def)
  have CF: "call_function d G task e =
     (case call_pre_hooks d (pre_hooks (G s)) buf of
        Inl err \<Rightarrow> (Inl err, e)
      | Inr ins \<Rightarrow>
          let rejected = (case cbs s of None \<Rightarrow> False | Some callback \<Rightarrow> \<not> callback s ins)
          in if rejected then (Inr (replicate (length es) None), e)
             else
               let e1 = e\<lparr> calls := calls e @ [Apply s] \<rparr>
               in case apply_of d s ins of
                    Inl err \<Rightarrow> (Inl err, e1)
                  | Inr fn_outputs \<Rightarrow>
                      (call_post_hooks d (post_hooks (G s)) fn_outputs ins, e1))"
    unfolding call_function_def s_def buf_def cbs_def es_def by (rule refl)
  have EV: "evaluate_function d G task e =
     (case call_function d G task e of
        (Inl err, e1) \<Rightarrow> (Some err, e1)
      | (Inr outputs, e1) \<Rightarrow>
          let e2 = (if \<not> keep_graph (graph_task e1)
                    then e1\<lparr> calls := calls e1 @ [ReleaseVariables s] \<rparr>
                    else e1)
          in if length outputs \<noteq> length es
             then (Some (InvalidOutputCount s (length es) (length outputs)), e2)
             else route_outputs d G (zip outputs es) e2)"
    unfolding evaluate_function_def s_def es_def by (rule refl)
  have failed: ?thesis
    if "evaluate_function d G task e = (Some err, e\<lparr> calls := calls e @ cs \<rparr>)"
       "applied cs = [] \<or> applied cs = [s] \<and> \<not> always_rejected cbs s"
       "\<not> behaved d G cbs s" for err cs
    using that unfolding s_def cbs_def es_def by blast
  have routed: ?thesis
    if "evaluate_function d G task e
          = route_outputs d G (zip outs es) (e\<lparr> calls := calls e @ cs \<rparr>)"
       "length outs = length es"
       "applied cs = [] \<or> applied cs = [s] \<and> \<not> always_rejected cbs s"
       "applied cs = [s] \<longrightarrow> \<not> always_fails d G s"
       "behaved d G cbs s \<longrightarrow> applied cs = [s]" for outs cs
    using that unfolding s_def cbs_def es_def by blast
  show ?thesis
  proof (cases "call_pre_hooks d (pre_hooks (G s)) buf")
    case (Inl err)
    then have ev: "evaluate_function d G task e = (Some err, e\<lparr> calls := calls e @ [] \<rparr>)"
      by (simp add: EV CF)
    have nb: "\<not> behaved d G cbs s"
      using Inl unfolding behaved_def by (metis sum.distinct(1))
    show ?thesis by (rule failed [OF ev _ nb]) simp
  next
    case (Inr ins)
    note pre = this
    have pre_only: "call_pre_hooks d (pre_hooks (G s)) buf = Inr ins' \<Longrightarrow> ins' = ins" for ins'
      using pre by simp
    define rejected where "rejected = (case cbs s of None \<Rightarrow> False
                                        | Some callback \<Rightarrow> \<not> callback s ins)"
    show ?thesis
    proof (cases rejected)
      case True
      have cf: "call_function d G task e = (Inr (replicate (length es) None), e)"
        using pre True by (simp add: CF rejected_def Let_def)
      have ev: "evaluate_function d G task e
                  = route_outputs d G (zip (replicate (length es) None) es)
                      (e\<lparr> calls := calls e @ rel \<rparr>)"
        using cf by (simp add: EV Let_def rel_def)
      have nb: "\<not> behaved d G cbs s"
      proof
        assume "behaved d G cbs s"
        then obtain ins' where "call_pre_hooks d (pre_hooks (G s)) buf = Inr ins'"
          "\<forall>callback. cbs s = Some callback \<longrightarrow> callback s ins'"
          unfolding behaved_def by blast
        with pre_only True show False by (auto simp: rejected_def split: option.splits)
      qed
      show ?thesis
        by (rule routed [OF ev]) (use rel nb in simp_all)
    next
      case False
      note accepted = this
      have nr: "\<not> always_rejected cbs s"
        using accepted by (auto simp: always_rejected_def rejected_def split: option.splits)
      define e1 where "e1 = e\<lparr> calls := calls e @ [Apply s] \<rparr>"
      have cf: "call_function d G task e
                  = (case apply_of d s ins of
                       Inl err \<Rightarrow> (Inl err, e1)
                     | Inr fn_outputs \<Rightarrow>
                         (call_post_hooks d (post_hooks (G s)) fn_outputs ins, e1))"
        unfolding e1_def using pre accepted by (simp add: CF rejected_def Let_def)
      have ap: "applied (Apply s # rel) = [] \<or> applied (Apply s # rel) = [s]
                  \<and> \<not> always_rejected cbs s"
               "applied [Apply s] = [] \<or> applied [Apply s] = [s]
                  \<and> \<not> always_rejected cbs s"
        using rel nr by simp_all
      show ?thesis
      proof (cases "apply_of d s ins")
        case (Inl err)
        then have ev: "evaluate_function d G task e
                         = (Some err, e\<lparr> calls := calls e @ [Apply s] \<rparr>)"
          using cf by (simp add: EV e1_def)
        have nb: "\<not> behaved d G cbs s"
        proof
          assume "behaved d G cbs s"
          then obtain ins' outs where "call_pre_hooks d (pre_hooks (G s)) buf = Inr ins'"
            "apply_of d s ins' = Inr outs"
            unfolding behaved_def by blast
          with pre_only Inl show False by auto
        qed
        show ?thesis by (rule failed [OF ev ap(2) nb])
      next
        case (Inr fn_outputs)
        note app = this
        show ?thesis
        proof (cases "call_post_hooks d (post_hooks (G s)) fn_outputs ins")
          case (Inl err)
          then have ev: "evaluate_function d G task e
                           = (Some err, e\<lparr> calls := calls e @ [Apply s] \<rparr>)"
            using cf app by (simp add: EV e1_def)
          have nb: "\<not> behaved d G cbs s"
          proof
            assume "behaved d G cbs s"
            then obtain ins' outs outs' where "call_pre_hooks d (pre_hooks (G s)) buf = Inr ins'"
              "apply_of d s ins' = Inr outs"
              "call_post_hooks d (post_hooks (G s)) outs ins' = Inr outs'"
              unfolding behaved_def by blast
            with pre_only app Inl show False by auto
          qed
          show ?thesis by (rule failed [OF ev ap(2) nb])
        next
          case (Inr outs)
          note post = this
          have cf': "call_function d G task e = (Inr outs, e1)"
            using cf app post by simp
          show ?thesis
          proof (cases "length outs = length es")
            case False
            have ev: "evaluate_function d G task e
                        = (Some (InvalidOutputCount s (length es) (length outs)),
                           e\<lparr> calls := calls e @ Apply s # rel \<rparr>)"
              using cf' False by (auto simp: EV Let_def e1_def rel_def)
            have nb: "\<not> behaved d G cbs s"
            proof
              assume "behaved d G cbs s"
              then obtain ins' outs0 outs' where
                "call_pre_hooks d (pre_hooks (G s)) buf = Inr ins'"
                "apply_of d s ins' = Inr outs0"
                "call_post_hooks d (post_hooks (G s)) outs0 ins' = Inr outs'"
                "length outs' = length (next_functions (G s))"
                unfolding behaved_def by blast
              with pre_only app post False show False by (auto simp: es_def)
            qed
            show ?thesis by (rule failed [OF ev ap(1) nb])
          next
            case True
            have ev: "evaluate_function d G task e
                        = route_outputs d G (zip outs es) (e\<lparr> calls := calls e @ Apply s # rel \<rparr>)"
              using cf' True by (auto simp: EV Let_def e1_def rel_def)
            have nf: "\<not> always_fails d G s"
              using app post True unfolding always_fails_def es_def
              by (auto intro!: exI [of _ ins])
            show ?thesis
              by (rule routed [OF ev True ap(1)]) (use nf rel in simp_all)
          qed
        qed
      qed
    qed
  qed
qed

text \<open>
  The schedule between two tasks, for the set \<open>A\<close> of Functions to evaluate and the list
  \<open>P\<close> of the Functions whose task was evaluated so far: the dependency map counts the
  edges from the Functions of \<open>A\<close> not yet evaluated; exactly the Functions of \<open>A\<close> that
  are not yet evaluated and have no such edge left are queued, each once.
\<close>

definition schedule_invariant ::
  "(addr \<Rightarrow> Function) \<Rightarrow> addr set \<Rightarrow> addr list \<Rightarrow> 'v Engine \<Rightarrow> bool" where
  "schedule_invariant G A P e \<longleftrightarrow>
     (let D = set P; c = in_count G (A - D) in
      (\<forall>f \<in> D. c f = 0)
      \<and> distinct (map fn (ready_queue e))
      \<and> fn ` set (ready_queue e) = {f \<in> A. c f = 0} - D
      \<and> (\<forall>t. map_of (dependencies (graph_task e)) t = dependency_entry (c t))
      \<and> fst ` set (not_ready (graph_task e)) \<subseteq> {t. 0 < c t})"

lemma in_count_remove:
  assumes "finite S" "s \<in> S" "is_executable (G s)"
  shows "in_count G S t
           = in_count G (S - {s}) t
             + (if counted G t then edge_mult (next_functions (G s)) t else 0)"
  using in_count_insert [of "S - {s}" s G t] assms by (simp add: insert_absorb)

lemma in_count_pos:
  assumes "finite S" "0 < in_count G S t"
  shows "counted G t \<and> (\<exists>s \<in> S. is_executable (G s) \<and> 0 < edge_mult (next_functions (G s)) t)"
proof -
  have c: "counted G t" using assms(2) by (auto simp: in_count_def split: if_splits)
  then have "0 < (\<Sum>s \<in> {s \<in> S. is_executable (G s)}. edge_mult (next_functions (G s)) t)"
    using assms(2) by (simp add: in_count_def)
  then obtain s where "s \<in> {s \<in> S. is_executable (G s)}"
      "0 < edge_mult (next_functions (G s)) t"
    by (metis (no_types, lifting) sum.neutral not_gr_zero)
  with c show ?thesis by blast
qed

text \<open>
  Routing the outputs of the task at the back of the queue: no dependency is missing, and
  the schedule is the one for the Functions evaluated so far and this one.
\<close>

lemma schedule_step:
  assumes finA: "finite A"
    and execA: "\<forall>f \<in> A. is_executable (G f)"
    and closedA: "\<forall>s \<in> A. \<forall>t. counted G t \<and> 0 < edge_mult (next_functions (G s)) t \<longrightarrow> t \<in> A"
    and PA: "set P \<subseteq> A"
    and inv: "schedule_invariant G A P e"
    and pop: "pop_back e = Some (task, e1)"
    and e2: "graph_task e2 = graph_task e" "ready_queue e2 = ready_queue e1"
    and len: "length outs = length (next_functions (G (fn task)))"
  shows "\<exists>e3. route_outputs d G (zip outs (next_functions (G (fn task)))) e2 = (None, e3)
           \<and> schedule_invariant G A (P @ [fn task]) e3
           \<and> outstanding_tasks (graph_task e3) + of_nat (length (ready_queue e2))
               = outstanding_tasks (graph_task e2) + of_nat (length (ready_queue e3))
           \<and> same_task e2 e3"
proof -
  define D where "D = set P"
  define c where "c = in_count G (A - D)"
  define s where "s = fn task"
  define es where "es = next_functions (G s)"
  have ne: "ready_queue e \<noteq> []" and task: "task = last (ready_queue e)"
    and e1: "e1 = e\<lparr> ready_queue := butlast (ready_queue e) \<rparr>"
    using pop by (auto simp: pop_back_def split: if_splits)
  have i: "\<forall>f \<in> D. c f = 0"
    "distinct (map fn (ready_queue e))"
    "fn ` set (ready_queue e) = {f \<in> A. c f = 0} - D"
    "\<forall>t. map_of (dependencies (graph_task e)) t = dependency_entry (c t)"
    "fst ` set (not_ready (graph_task e)) \<subseteq> {t. 0 < c t}"
    using inv unfolding schedule_invariant_def D_def c_def Let_def by simp_all
  have q: "ready_queue e = butlast (ready_queue e) @ [task]"
    using ne task by simp
  have s_in: "s \<in> fn ` set (ready_queue e)"
    using ne task by (auto simp: s_def)
  then have sA: "s \<in> A" "s \<notin> D" "c s = 0" using i(3) by auto
  have s_exec: "is_executable (G s)" using sA execA by blast
  have finAD: "finite (A - D)" using finA by simp
  have mq: "map fn (ready_queue e) = map fn (butlast (ready_queue e)) @ [s]"
    by (subst q) (simp add: s_def)
  have rest: "fn ` set (butlast (ready_queue e)) = ({f \<in> A. c f = 0} - D) - {s}"
  proof -
    have "distinct (map fn (butlast (ready_queue e)) @ [s])"
      using i(2) mq by simp
    then have "s \<notin> fn ` set (butlast (ready_queue e))" by simp
    moreover have "set (map fn (ready_queue e)) = insert s (set (map fn (butlast (ready_queue e))))"
      by (subst mq) simp
    ultimately show ?thesis using i(3) by auto
  qed
  have drest: "distinct (map fn (butlast (ready_queue e)))"
    using i(2) by (simp add: distinct_butlast map_butlast)
  define c' where "c' = in_count G (A - insert s D)"
  have AsD: "A - insert s D = (A - D) - {s}" by auto
  have cc': "c x = c' x + (if counted G x then edge_mult es x else 0)" for x
  proof -
    have "s \<in> A - D" using sA by simp
    from in_count_remove [where G = G and s = s and S = "A - D" and t = x,
                          OF finAD this s_exec] show ?thesis
      unfolding c_def c'_def es_def AsD .
  qed
  then have c'c: "c' x = c x - (if counted G x then edge_mult es x else 0)" for x
    by simp
  have enough: "\<forall>x. counted G x \<longrightarrow> edge_mult es x \<le> c x"
    using cc' by simp
  have q2: "ready_queue e2 = butlast (ready_queue e)" using e2(2) e1 by simp
  have d2: "\<forall>x. map_of (dependencies (graph_task e2)) x = dependency_entry (c x)"
    using i(4) e2(1) by simp
  have n2: "fst ` set (not_ready (graph_task e2)) \<subseteq> {x. 0 < c x}"
    using i(5) e2(1) by simp
  have len': "length outs = length es" using len by (simp add: es_def s_def)
  obtain e3 new where r:
    "route_outputs d G (zip outs es) e2 = (None, e3)"
    "\<forall>x. map_of (dependencies (graph_task e3)) x = dependency_entry (c' x)"
    "fst ` set (not_ready (graph_task e3)) \<subseteq> {x. 0 < c' x}"
    "ready_queue e3 = new @ ready_queue e2"
    "distinct (map fn new)"
    "set (map fn new) = {x. counted G x \<and> 0 < edge_mult es x \<and> c x = edge_mult es x}"
    "outstanding_tasks (graph_task e3) = outstanding_tasks (graph_task e2) + of_nat (length new)"
    "same_task e2 e3"
    using route_outputs_spec [OF len' d2 enough n2, where d = d]
    unfolding c'c [symmetric] by blast
  have new_fns: "fn ` set new = {x. counted G x \<and> 0 < edge_mult es x \<and> c x = edge_mult es x}"
    using r(6) by simp
  have newA: "fn ` set new \<subseteq> A" using new_fns closedA sA(1) by (auto simp: es_def)
  have newpos: "\<forall>x \<in> fn ` set new. 0 < c x" using new_fns by auto
  have w3: "\<forall>f \<in> insert s D. c' f = 0" using i(1) sA(3) c'c by simp
  have w4: "distinct (map fn (ready_queue e3))"
    using r(4,5) q2 drest rest newpos by auto
  have w5: "fn ` set (ready_queue e3) = {f \<in> A. c' f = 0} - insert s D"
  proof -
    have "fn ` set (ready_queue e3) = fn ` set new \<union> (({f \<in> A. c f = 0} - D) - {s})"
      using r(4) q2 rest by (simp add: image_Un)
    also have "\<dots> = {f \<in> A. c' f = 0} - insert s D"
    proof (intro set_eqI iffI)
      fix x assume "x \<in> fn ` set new \<union> (({f \<in> A. c f = 0} - D) - {s})"
      then show "x \<in> {f \<in> A. c' f = 0} - insert s D"
      proof
        assume x: "x \<in> fn ` set new"
        then have "c' x = 0" "0 < c x" "x \<in> A" using new_fns c'c newA by auto
        with i(1) sA(3) show ?thesis by auto
      next
        assume "x \<in> ({f \<in> A. c f = 0} - D) - {s}"
        then show ?thesis using c'c by auto
      qed
    next
      fix x assume x: "x \<in> {f \<in> A. c' f = 0} - insert s D"
      show "x \<in> fn ` set new \<union> (({f \<in> A. c f = 0} - D) - {s})"
      proof (cases "c x = 0")
        case True
        with x show ?thesis by auto
      next
        case False
        with x c'c [of x] enough have "counted G x \<and> 0 < edge_mult es x \<and> c x = edge_mult es x"
          by (auto split: if_splits)
        with new_fns show ?thesis by auto
      qed
    qed
    finally show ?thesis .
  qed
  have sched: "schedule_invariant G A (P @ [fn task]) e3"
    unfolding schedule_invariant_def Let_def
    using w3 w4 w5 r(2,3) by (simp add: D_def [symmetric] s_def [symmetric] c'_def [symmetric])
  have out: "outstanding_tasks (graph_task e3) + of_nat (length (ready_queue e2))
               = outstanding_tasks (graph_task e2) + of_nat (length (ready_queue e3))"
    using r(7,4) by simp
  show ?thesis
    using r(1,8) sched out by (auto simp: es_def s_def)
qed

lemma schedule_next:
  assumes "schedule_invariant G A P e" "pop_back e = Some (task, e1)"
  shows "fn task \<in> A" "fn task \<notin> set P"
proof -
  have "ready_queue e \<noteq> []" "task = last (ready_queue e)"
    using assms(2) by (auto simp: pop_back_def split: if_splits)
  then have "fn task \<in> fn ` set (ready_queue e)" by auto
  then show "fn task \<in> A" "fn task \<notin> set P"
    using assms(1) unfolding schedule_invariant_def Let_def by auto
qed

text \<open>
  The state of the worker between two tasks. The Functions applied so far are among the
  evaluated ones \<open>P\<close>, which are among \<open>A\<close>, each once; none of them is always rejected by
  the callbacks; one that always fails is the last one applied, and the error is
  captured. The counter \<^verbatim>\<open>outstanding_tasks\<close> is the length of the queue. As long as no
  error is captured the schedule is kept; and when all the Functions of \<open>A\<close> behave, no
  error is captured and every evaluated Function was applied.
\<close>

definition worker_invariant ::
  "'v dispatch \<Rightarrow> (addr \<Rightarrow> Function) \<Rightarrow> addr set \<Rightarrow> bool \<Rightarrow> 'v callback_map \<Rightarrow> addr list
     \<Rightarrow> 'v Engine \<Rightarrow> bool" where
  "worker_invariant d G A kg callbacks P e \<longleftrightarrow>
     set (applied (calls e)) \<subseteq> set P \<and> set P \<subseteq> A
     \<and> distinct P \<and> distinct (applied (calls e))
     \<and> (\<forall>f \<in> set (applied (calls e)). \<not> always_rejected callbacks f)
     \<and> (\<forall>f \<in> set (applied (calls e)). always_fails d G f
           \<longrightarrow> has_error (graph_task e) \<and> last (applied (calls e)) = f)
     \<and> outstanding_tasks (graph_task e) = of_nat (length (ready_queue e))
     \<and> keep_graph (graph_task e) = kg
     \<and> function_callbacks (graph_task e) = callbacks
     \<and> (has_error (graph_task e) \<longrightarrow> exception (graph_task e) \<noteq> None)
     \<and> (\<not> has_error (graph_task e) \<longrightarrow> schedule_invariant G A P e)
     \<and> (all_behave d G callbacks A \<longrightarrow> \<not> has_error (graph_task e) \<and> applied (calls e) = P)"

lemma schedule_invariant_outstanding [simp]:
  "schedule_invariant G A P (e\<lparr> graph_task := (graph_task e)\<lparr> outstanding_tasks := n \<rparr> \<rparr>)
     = schedule_invariant G A P e"
  by (simp add: schedule_invariant_def)

lemma worker_iteration:
  assumes finA: "finite A"
    and execA: "\<forall>f \<in> A. is_executable (G f)"
    and closedA: "\<forall>s \<in> A. \<forall>t. counted G t \<and> 0 < edge_mult (next_functions (G s)) t \<longrightarrow> t \<in> A"
    and inv: "worker_invariant d G A kg callbacks P e"
    and pop: "pop_back e = Some (task, e1)"
  shows "\<exists>P'. worker_invariant d G A kg callbacks P' (thread_main_iteration d G task e1)"
proof -
  define s where "s = fn task"
  have ne: "ready_queue e \<noteq> []"
    and e1: "e1 = e\<lparr> ready_queue := butlast (ready_queue e) \<rparr>"
    using pop by (auto simp: pop_back_def split: if_splits)
  have i: "set (applied (calls e)) \<subseteq> set P" "set P \<subseteq> A"
    "distinct P" "distinct (applied (calls e))"
    "\<forall>f \<in> set (applied (calls e)). \<not> always_rejected callbacks f"
    "\<forall>f \<in> set (applied (calls e)). always_fails d G f
           \<longrightarrow> has_error (graph_task e) \<and> last (applied (calls e)) = f"
    "outstanding_tasks (graph_task e) = of_nat (length (ready_queue e))"
    "keep_graph (graph_task e) = kg"
    "function_callbacks (graph_task e) = callbacks"
    "has_error (graph_task e) \<longrightarrow> exception (graph_task e) \<noteq> None"
    "\<not> has_error (graph_task e) \<longrightarrow> schedule_invariant G A P e"
    "all_behave d G callbacks A \<longrightarrow> \<not> has_error (graph_task e) \<and> applied (calls e) = P"
    using inv unfolding worker_invariant_def by simp_all
  have lenq: "(of_nat (length (ready_queue e)) :: 64 word)
                = 1 + of_nat (length (butlast (ready_queue e)))"
    using ne by (cases "ready_queue e" rule: rev_cases) simp_all
  have out1: "outstanding_tasks (graph_task e) - 1 = of_nat (length (butlast (ready_queue e)))"
    unfolding i(7) lenq by simp
  show ?thesis
  proof (cases "has_error (graph_task e)")
    case True
    have it: "thread_main_iteration d G task e1
                = e1\<lparr> graph_task := (graph_task e1)\<lparr> outstanding_tasks :=
                          outstanding_tasks (graph_task e1) - 1 \<rparr> \<rparr>"
      using True by (simp add: thread_main_iteration_def e1)
    have "worker_invariant d G A kg callbacks P (thread_main_iteration d G task e1)"
      unfolding it worker_invariant_def
      using i True out1 by (simp add: e1)
    then show ?thesis ..
  next
    case False
    note running = this
    have sched: "schedule_invariant G A P e" using i(11) running by simp
    have sA: "s \<in> A" "s \<notin> set P"
      using schedule_next [OF sched pop] by (simp_all add: s_def)
    have s_new: "s \<notin> set (applied (calls e))" using sA(2) i(1) by auto
    have no_fail: "\<forall>f \<in> set (applied (calls e)). \<not> always_fails d G f"
      using i(6) running by blast
    have gt1: "graph_task e1 = graph_task e" "calls e1 = calls e"
      "ready_queue e1 = butlast (ready_queue e)"
      by (simp_all add: e1)
    obtain cs where cs: "applied cs = [] \<or> applied cs = [s] \<and> \<not> always_rejected callbacks s"
      and ev: "(\<exists>err. evaluate_function d G task e1 = (Some err, e1\<lparr> calls := calls e1 @ cs \<rparr>)
                  \<and> \<not> behaved d G callbacks s)
               \<or> (\<exists>outs. length outs = length (next_functions (G s))
                    \<and> evaluate_function d G task e1
                        = route_outputs d G (zip outs (next_functions (G s)))
                            (e1\<lparr> calls := calls e1 @ cs \<rparr>)
                    \<and> (applied cs = [s] \<longrightarrow> \<not> always_fails d G s)
                    \<and> (behaved d G callbacks s \<longrightarrow> applied cs = [s]))"
      using evaluate_function_cases [of task e1 d G] i(9) gt1(1)
      unfolding s_def by auto
    define e2 where "e2 = e1\<lparr> calls := calls e1 @ cs \<rparr>"
    have e2: "graph_task e2 = graph_task e" "ready_queue e2 = ready_queue e1"
      "applied (calls e2) = applied (calls e) @ applied cs"
      by (simp_all add: e2_def e1)
    have a1: "set (applied (calls e2)) \<subseteq> set (P @ [s])"
      using i(1) cs e2(3) by auto
    have a2: "distinct (applied (calls e2))"
      using i(4) cs s_new e2(3) by auto
    have a3: "\<forall>f \<in> set (applied (calls e2)). \<not> always_rejected callbacks f"
      using i(5) cs e2(3) by auto
    have p1: "set (P @ [s]) \<subseteq> A" "distinct (P @ [s])"
      using i(2,3) sA by simp_all
    from ev show ?thesis
    proof
      assume "\<exists>err. evaluate_function d G task e1 = (Some err, e1\<lparr> calls := calls e1 @ cs \<rparr>)
                \<and> \<not> behaved d G callbacks s"
      then obtain err where err: "evaluate_function d G task e1 = (Some err, e2)"
        and nb: "\<not> behaved d G callbacks s"
        by (auto simp: e2_def)
      define e4 where "e4 = e2\<lparr> graph_task := (graph_task e2)\<lparr> exception := Some err,
                                 has_error := True,
                                 outstanding_tasks := outstanding_tasks (graph_task e2) - 1 \<rparr> \<rparr>"
      have it: "thread_main_iteration d G task e1 = e4"
        using err running e2(1) gt1(1)
        by (simp add: thread_main_iteration_def thread_on_exception_def e4_def)
      have a4: "\<forall>f \<in> set (applied (calls e2)). always_fails d G f
                  \<longrightarrow> last (applied (calls e2)) = f"
        using no_fail cs e2(3) by auto
      have nall: "\<not> all_behave d G callbacks A"
        using nb sA(1) by (auto simp: all_behave_def)
      have "worker_invariant d G A kg callbacks (P @ [s]) e4"
        unfolding worker_invariant_def
        using a1 a2 a3 a4 p1 nall i(8,9) out1 e2(1,2) gt1(3)
        by (simp add: e4_def)
      then show ?thesis unfolding it ..
    next
      assume "\<exists>outs. length outs = length (next_functions (G s))
                \<and> evaluate_function d G task e1
                    = route_outputs d G (zip outs (next_functions (G s)))
                        (e1\<lparr> calls := calls e1 @ cs \<rparr>)
                \<and> (applied cs = [s] \<longrightarrow> \<not> always_fails d G s)
                \<and> (behaved d G callbacks s \<longrightarrow> applied cs = [s])"
      then obtain outs where outs: "length outs = length (next_functions (G s))"
        and ev': "evaluate_function d G task e1
                    = route_outputs d G (zip outs (next_functions (G s))) e2"
        and nf: "applied cs = [s] \<longrightarrow> \<not> always_fails d G s"
        and bh: "behaved d G callbacks s \<longrightarrow> applied cs = [s]"
        by (auto simp: e2_def)
      obtain e3 where r:
        "route_outputs d G (zip outs (next_functions (G s))) e2 = (None, e3)"
        "schedule_invariant G A (P @ [s]) e3"
        "outstanding_tasks (graph_task e3) + of_nat (length (ready_queue e2))
           = outstanding_tasks (graph_task e2) + of_nat (length (ready_queue e3))"
        "same_task e2 e3"
        using schedule_step [OF finA execA closedA i(2) sched pop e2(1,2), where d = d and outs = outs]
          outs unfolding s_def by blast
      define e4 where "e4 = e3\<lparr> graph_task := (graph_task e3)\<lparr> outstanding_tasks :=
                                  outstanding_tasks (graph_task e3) - 1 \<rparr> \<rparr>"
      have it: "thread_main_iteration d G task e1 = e4"
        using ev' r(1) running gt1(1)
        by (simp add: thread_main_iteration_def e4_def)
      have same: "calls e3 = calls e2" "has_error (graph_task e3) = has_error (graph_task e)"
        "keep_graph (graph_task e3) = kg" "function_callbacks (graph_task e3) = callbacks"
        "exception (graph_task e3) = exception (graph_task e)"
        using r(4) e2(1) i(8,9) by (simp_all add: same_task_def)
      have a4: "\<forall>f \<in> set (applied (calls e2)). \<not> always_fails d G f"
        using no_fail cs nf e2(3) by auto
      have out3: "outstanding_tasks (graph_task e3) - 1 = of_nat (length (ready_queue e3))"
      proof -
        have "outstanding_tasks (graph_task e3) + of_nat (length (butlast (ready_queue e)))
                = of_nat (length (ready_queue e)) + of_nat (length (ready_queue e3))"
          using r(3) e2(1,2) gt1(3) i(7) by simp
        then have "outstanding_tasks (graph_task e3) + of_nat (length (butlast (ready_queue e)))
                = (1 + of_nat (length (ready_queue e3)))
                    + of_nat (length (butlast (ready_queue e)))"
          unfolding lenq by (simp add: ac_simps)
        then have "outstanding_tasks (graph_task e3) = 1 + of_nat (length (ready_queue e3))"
          by (simp only: add_right_cancel)
        then show ?thesis by simp
      qed
      have all: "all_behave d G callbacks A \<longrightarrow> applied (calls e2) = P @ [s]"
        using i(12) bh sA(1) e2(3) by (auto simp: all_behave_def)
      have "worker_invariant d G A kg callbacks (P @ [s]) e4"
        unfolding worker_invariant_def
        using a1 a2 a3 a4 p1 all same running r(2) out3
        by (simp add: e4_def)
      then show ?thesis unfolding it ..
    qed
  qed
qed

lemma worker_runs:
  "finite A \<Longrightarrow> \<forall>f \<in> A. is_executable (G f)
   \<Longrightarrow> \<forall>s \<in> A. \<forall>t. counted G t \<and> 0 < edge_mult (next_functions (G s)) t \<longrightarrow> t \<in> A
   \<Longrightarrow> \<exists>P. worker_invariant d G A kg callbacks P e
   \<Longrightarrow> (\<exists>P. worker_invariant d G A kg callbacks P (thread_main d G e))
       \<and> ready_queue (thread_main d G e) = []"
proof (induction d G e rule: thread_main.induct)
  case (1 d G e)
  show ?case
  proof (cases "pop_back e")
    case None
    then have "ready_queue e = []" by (auto simp: pop_back_def split: if_splits)
    with None "1.prems"(4) show ?thesis by simp
  next
    case (Some x)
    obtain task e1 where x: "x = (task, e1)" by (cases x)
    obtain P where P: "worker_invariant d G A kg callbacks P e" using "1.prems"(4) by blast
    have "\<exists>P'. worker_invariant d G A kg callbacks P' (thread_main_iteration d G task e1)"
      using worker_iteration [OF "1.prems"(1-3) P] Some x by simp
    from "1.IH" [OF Some x [symmetric] "1.prems"(1-3) this] Some x
    show ?thesis by simp
  qed
qed

text \<open>
  When the queue is empty and no error was captured, an acyclic graph leaves no Function
  of \<open>A\<close> waiting.
\<close>

lemma worker_finished:
  assumes finA: "finite A"
    and rank: "\<forall>s \<in> A. \<forall>t. counted G t \<and> 0 < edge_mult (next_functions (G s)) t
                 \<longrightarrow> rank t < (rank s :: nat)"
    and PA: "set P \<subseteq> A"
    and inv: "schedule_invariant G A P e"
    and empty: "ready_queue e = []"
  shows "set P = A \<and> not_ready (graph_task e) = []"
proof -
  define D where "D = set P"
  define c where "c = in_count G (A - D)"
  have i: "D \<subseteq> A" "fn ` set (ready_queue e) = {f \<in> A. c f = 0} - D"
    "fst ` set (not_ready (graph_task e)) \<subseteq> {t. 0 < c t}"
    using inv PA unfolding schedule_invariant_def D_def c_def Let_def by simp_all
  have "A - D = {}"
  proof (rule ccontr)
    assume ne: "A - D \<noteq> {}"
    have fin: "finite (A - D)" using finA by simp
    define m where "m = Max (rank ` (A - D))"
    have "m \<in> rank ` (A - D)" unfolding m_def using fin ne by (intro Max_in) auto
    then obtain f where f: "f \<in> A - D" "rank f = m" by auto
    have mx: "rank g \<le> m" if "g \<in> A - D" for g
      unfolding m_def using fin that by (intro Max_ge) auto
    have "c f \<noteq> 0" using i(2) empty f(1) by auto
    then have "0 < in_count G (A - D) f" by (simp add: c_def)
    from in_count_pos [OF fin this] obtain s where
      s: "counted G f" "s \<in> A - D" "0 < edge_mult (next_functions (G s)) f" by blast
    then have "rank f < rank s" using rank by blast
    with mx [OF s(2)] f(2) show False by simp
  qed
  then have DA: "D = A" using i(1) by blast
  have "c t = 0" for t by (simp add: c_def DA in_count_def)
  then have "fst ` set (not_ready (graph_task e)) = {}" using i(3) by auto
  then show ?thesis using DA by (simp add: D_def)
qed

text \<open>
  Once an error is captured the worker makes no call any more: it drains the queue.
\<close>

lemma thread_main_after_error:
  "has_error (graph_task e) \<Longrightarrow> calls (thread_main d G e) = calls e"
proof (induction d G e rule: thread_main.induct)
  case (1 d G e)
  show ?case
  proof (cases "pop_back e")
    case None
    then show ?thesis by simp
  next
    case (Some x)
    obtain task e1 where x: "x = (task, e1)" by (cases x)
    have e1: "has_error (graph_task e1)" "calls e1 = calls e"
      using Some x "1.prems" by (auto simp: pop_back_def split: if_splits)
    then have it: "has_error (graph_task (thread_main_iteration d G task e1))"
      "calls (thread_main_iteration d G task e1) = calls e"
      by (simp_all add: thread_main_iteration_def)
    from "1.IH" [OF Some x [symmetric] it(1)] it(2) Some x show ?thesis by simp
  qed
qed

subsection \<open>What \<^verbatim>\<open>find_stochastic_functions\<close> finds\<close>

text \<open>
  The Functions reachable from a set \<open>F\<close> through one or more edges of any kind.
\<close>

inductive_set reach_plus :: "(addr \<Rightarrow> Function) \<Rightarrow> addr set \<Rightarrow> addr set"
  for G :: "addr \<Rightarrow> Function" and F :: "addr set" where
  first: "s \<in> F \<Longrightarrow> (Some t, nr) \<in> set (next_functions (G s)) \<Longrightarrow> t \<in> reach_plus G F"
| step: "s \<in> reach_plus G F \<Longrightarrow> (Some t, nr) \<in> set (next_functions (G s))
         \<Longrightarrow> t \<in> reach_plus G F"

text \<open>
  A stochastic executable Function runs without waiting for gradients.
\<close>

definition runs_unasked :: "(addr \<Rightarrow> Function) \<Rightarrow> addr \<Rightarrow> bool" where
  "runs_unasked G t \<longleftrightarrow> is_stochastic (G t) \<and> is_executable (G t)"

text \<open>
  The engine after \<^verbatim>\<open>find_stochastic_functions\<close> has queued the Functions \<open>ts\<close>, in that
  order, each with an empty InputBuffer.
\<close>

definition queue_stochastic :: "addr list \<Rightarrow> 'v Engine \<Rightarrow> 'v Engine" where
  "queue_stochastic ts e =
     e\<lparr> ready_queue := rev (map (\<lambda>t. \<lparr> fn = t, inputs = InputBuffer_new 0 \<rparr>) ts)
                         @ ready_queue e,
        graph_task := (graph_task e)\<lparr>
          outstanding_tasks := outstanding_tasks (graph_task e) + of_nat (length ts),
          has_any_work := has_any_work (graph_task e) \<or> ts \<noteq> [] \<rparr> \<rparr>"

lemma queue_stochastic_Nil [simp]: "queue_stochastic [] e = e"
  by (simp add: queue_stochastic_def)

lemma queue_stochastic_append:
  "queue_stochastic ys (queue_stochastic xs e) = queue_stochastic (xs @ ys) e"
  by (auto simp: queue_stochastic_def add.assoc)

lemma find_stochastic_edges_spec:
  "\<exists>new. find_stochastic_edges G es (queue, e, seen, search_queue)
      = (queue @ filter (runs_unasked G) new,
         queue_stochastic (filter (runs_unasked G) new) e,
         seen \<union> {t. 0 < edge_mult es t}, search_queue @ new)
    \<and> distinct new \<and> set new = {t. 0 < edge_mult es t} - seen"
proof (induction es arbitrary: queue e seen search_queue)
  case Nil
  show ?case by simp
next
  case (Cons a es)
  obtain p nr where a: "a = (p, nr)" by (cases a)
  show ?case
  proof (cases p)
    case None
    with a Cons.IH [of queue e seen search_queue] show ?thesis by simp
  next
    case (Some t)
    define first where "first = (if t \<in> seen then [] else [t])"
    have step: "find_stochastic_edges G (a # es) (queue, e, seen, search_queue)
        = find_stochastic_edges G es
            (queue @ filter (runs_unasked G) first,
             queue_stochastic (filter (runs_unasked G) first) e,
             insert t seen, search_queue @ first)"
      using a Some
      by (auto simp: first_def runs_unasked_def Let_def queue_stochastic_def push_front_def
            insert_absorb)
    obtain new where r:
      "find_stochastic_edges G es
            (queue @ filter (runs_unasked G) first,
             queue_stochastic (filter (runs_unasked G) first) e,
             insert t seen, search_queue @ first)
        = ((queue @ filter (runs_unasked G) first) @ filter (runs_unasked G) new,
           queue_stochastic (filter (runs_unasked G) new)
             (queue_stochastic (filter (runs_unasked G) first) e),
           insert t seen \<union> {t. 0 < edge_mult es t}, (search_queue @ first) @ new)"
      "distinct new" "set new = {t. 0 < edge_mult es t} - insert t seen"
      using Cons.IH by blast
    have s1: "insert t seen \<union> {x. 0 < edge_mult es x} = seen \<union> {x. 0 < edge_mult (a # es) x}"
      using a Some by auto
    have s2: "distinct (first @ new)" using r(2,3) by (auto simp: first_def)
    have s3: "set (first @ new) = {x. 0 < edge_mult (a # es) x} - seen"
      using r(3) a Some by (auto simp: first_def)
    show ?thesis
      using step r(1) s1 s2 s3
      by (intro exI [of _ "first @ new"]) (simp add: queue_stochastic_append)
  qed
qed


text \<open>
  The state of the loop of \<^verbatim>\<open>find_stochastic_functions\<close>: every Function that is a root
  or was seen, and is no longer in the search queue, has been expanded; the stochastic
  executable Functions seen so far have been appended to the roots and queued.
\<close>

definition search_invariant ::
  "(addr \<Rightarrow> Function) \<Rightarrow> addr list \<Rightarrow> 'v Engine \<Rightarrow> addr list \<Rightarrow> 'v Engine \<Rightarrow> addr set \<Rightarrow> addr list
     \<Rightarrow> bool" where
  "search_invariant G roots e0 queue e seen search_queue \<longleftrightarrow>
     seen \<subseteq> reach_plus G (set roots)
     \<and> set search_queue \<subseteq> set roots \<union> seen
     \<and> (\<forall>s \<in> (set roots \<union> seen) - set search_queue.
           \<forall>t. 0 < edge_mult (next_functions (G s)) t \<longrightarrow> t \<in> seen)
     \<and> (\<exists>stoch. queue = roots @ stoch \<and> distinct stoch
            \<and> set stoch = {t \<in> seen. runs_unasked G t}
            \<and> e = queue_stochastic stoch e0)"

lemma search_invariant_closed:
  assumes "search_invariant G roots e0 queue e seen []"
  shows "seen = reach_plus G (set roots)"
proof
  show "seen \<subseteq> reach_plus G (set roots)" using assms by (simp add: search_invariant_def)
  have cl: "\<forall>s \<in> set roots \<union> seen. \<forall>t. 0 < edge_mult (next_functions (G s)) t \<longrightarrow> t \<in> seen"
    using assms by (simp add: search_invariant_def)
  show "reach_plus G (set roots) \<subseteq> seen"
  proof
    fix x assume "x \<in> reach_plus G (set roots)"
    then show "x \<in> seen"
    proof (induction rule: reach_plus.induct)
      case (first s t nr)
      then have "0 < edge_mult (next_functions (G s)) t" by (auto simp: edge_mult_pos)
      with first cl show ?case by blast
    next
      case (step s t nr)
      then have "0 < edge_mult (next_functions (G s)) t" by (auto simp: edge_mult_pos)
      with step cl show ?case by blast
    qed
  qed
qed

lemma find_stochastic_loop_correct:
  assumes fin: "finite (reach_plus G (set roots))"
  shows "search_invariant G roots e0 queue e seen search_queue \<Longrightarrow>
    \<exists>stoch. find_stochastic_loop G queue e seen search_queue
               = Some (roots @ stoch, queue_stochastic stoch e0)
       \<and> distinct stoch \<and> set stoch = {t \<in> reach_plus G (set roots). runs_unasked G t}"
proof (induction "2 * card (reach_plus G (set roots) - seen) + length search_queue"
         arbitrary: queue e seen search_queue rule: less_induct)
  case less
  note inv = less.prems
  let ?R = "reach_plus G (set roots)"
  show ?case
  proof (cases "search_queue = []")
    case True
    with inv have "seen = ?R" using search_invariant_closed by blast
    with True inv show ?thesis
      by (subst find_stochastic_loop.simps) (auto simp: search_invariant_def)
  next
    case False
    define s where "s = last search_queue"
    define q where "q = butlast search_queue"
    have sq: "search_queue = q @ [s]" using False by (simp add: s_def q_def)
    let ?es = "next_functions (G s)"
    let ?T = "{t. 0 < edge_mult ?es t}"
    obtain stoch where st: "queue = roots @ stoch" "distinct stoch"
      "set stoch = {t \<in> seen. runs_unasked G t}" "e = queue_stochastic stoch e0"
      using inv unfolding search_invariant_def by blast
    have i: "seen \<subseteq> ?R" "set search_queue \<subseteq> set roots \<union> seen"
      "\<forall>x \<in> (set roots \<union> seen) - set search_queue.
           \<forall>t. 0 < edge_mult (next_functions (G x)) t \<longrightarrow> t \<in> seen"
      using inv unfolding search_invariant_def by simp_all
    obtain new where r:
      "find_stochastic_edges G ?es (queue, e, seen, q)
         = (queue @ filter (runs_unasked G) new,
            queue_stochastic (filter (runs_unasked G) new) e, seen \<union> ?T, q @ new)"
      "distinct new" "set new = ?T - seen"
      using find_stochastic_edges_spec [of G ?es queue e seen q] by blast
    have s_in: "s \<in> set roots \<union> seen" using i(2) sq by auto
    have T: "?T \<subseteq> ?R"
    proof
      fix t assume "t \<in> ?T"
      then obtain nr where "(Some t, nr) \<in> set ?es" by (auto simp: edge_mult_pos)
      with s_in i(1) show "t \<in> ?R"
        using reach_plus.first reach_plus.step by blast
    qed
    have inv': "search_invariant G roots e0 (queue @ filter (runs_unasked G) new)
                  (queue_stochastic (filter (runs_unasked G) new) e) (seen \<union> ?T) (q @ new)"
      unfolding search_invariant_def
    proof (intro conjI)
      show "seen \<union> ?T \<subseteq> ?R" using i(1) T by blast
      show "set (q @ new) \<subseteq> set roots \<union> (seen \<union> ?T)" using i(2) sq r(3) by auto
      show "\<forall>x \<in> (set roots \<union> (seen \<union> ?T)) - set (q @ new).
              \<forall>t. 0 < edge_mult (next_functions (G x)) t \<longrightarrow> t \<in> seen \<union> ?T"
      proof (intro ballI allI impI)
        fix x t
        assume x: "x \<in> (set roots \<union> (seen \<union> ?T)) - set (q @ new)"
          and t: "0 < edge_mult (next_functions (G x)) t"
        show "t \<in> seen \<union> ?T"
        proof (cases "x = s")
          case True
          with t show ?thesis by simp
        next
          case False
          with x r(3) sq have "x \<in> (set roots \<union> seen) - set search_queue" by auto
          with i(3) t show ?thesis by blast
        qed
      qed
      show "\<exists>stoch'. queue @ filter (runs_unasked G) new = roots @ stoch' \<and> distinct stoch'
              \<and> set stoch' = {t \<in> seen \<union> ?T. runs_unasked G t}
              \<and> queue_stochastic (filter (runs_unasked G) new) e = queue_stochastic stoch' e0"
      proof (intro exI [of _ "stoch @ filter (runs_unasked G) new"] conjI)
        show "queue @ filter (runs_unasked G) new = roots @ stoch @ filter (runs_unasked G) new"
          using st(1) by simp
        show "distinct (stoch @ filter (runs_unasked G) new)"
          using st(2,3) r(2,3) by auto
        show "set (stoch @ filter (runs_unasked G) new) = {t \<in> seen \<union> ?T. runs_unasked G t}"
          using st(3) r(3) by auto
        show "queue_stochastic (filter (runs_unasked G) new) e
                = queue_stochastic (stoch @ filter (runs_unasked G) new) e0"
          using st(4) by (simp add: queue_stochastic_append)
      qed
    qed
    have finR: "finite (?R - seen)" using fin by simp
    have sub: "?T - seen \<subseteq> ?R - seen" using T by auto
    have "?R - (seen \<union> ?T) = (?R - seen) - (?T - seen)" by auto
    then have card: "card (?R - (seen \<union> ?T)) = card (?R - seen) - card (?T - seen)"
      using card_Diff_subset [OF _ sub] finite_subset [OF sub finR] by simp
    have le: "card (?T - seen) \<le> card (?R - seen)"
      using card_mono [OF finR sub] .
    have len: "length new = card (?T - seen)"
      using r(2,3) distinct_card by fastforce
    have "2 * card (?R - (seen \<union> ?T)) + length (q @ new)
            < 2 * card (?R - seen) + length search_queue"
      using card le len sq by simp
    from less.hyps [OF this inv'] obtain stoch' where
      "find_stochastic_loop G (queue @ filter (runs_unasked G) new)
         (queue_stochastic (filter (runs_unasked G) new) e) (seen \<union> ?T) (q @ new)
         = Some (roots @ stoch', queue_stochastic stoch' e0)"
      "distinct stoch'" "set stoch' = {t \<in> ?R. runs_unasked G t}" by blast
    with \<open>search_queue \<noteq> []\<close> r(1) show ?thesis
      by (subst find_stochastic_loop.simps) (simp add: s_def q_def)
  qed
qed

lemma find_stochastic_functions_correct:
  assumes "finite (reach_plus G (set roots))"
  shows "\<exists>stoch. find_stochastic_functions G roots e0
               = Some (roots @ stoch, queue_stochastic stoch e0)
       \<and> distinct stoch \<and> set stoch = {t \<in> reach_plus G (set roots). runs_unasked G t}"
proof -
  have "search_invariant G roots e0 roots e0 {} roots"
    by (auto simp: search_invariant_def intro!: exI [of _ "[]"])
  then show ?thesis
    unfolding find_stochastic_functions_def
    using find_stochastic_loop_correct [OF assms] by blast
qed

subsection \<open>What \<^verbatim>\<open>find_roots\<close> queues\<close>

lemma keys_root_value_entry:
  "map fst (root_value_entry root rv)
     = (if root \<in> set (map fst rv) then map fst rv else map fst rv @ [root])"
  by (simp add: root_value_entry_def)

lemma keys_root_value_store [simp]: "map fst (root_value_store root b rv) = map fst rv"
  by (induction rv) (auto simp: root_value_store_def)

text \<open>
  Every executable root of \<^verbatim>\<open>root_value\<close> has an InputBuffer.
\<close>

definition buffers_ready :: "(addr \<Rightarrow> Function) \<Rightarrow> 'v root_value \<Rightarrow> bool" where
  "buffers_ready G rv \<longleftrightarrow> (\<forall>(k, b) \<in> set rv. is_executable (G k) \<longrightarrow> b \<noteq> None)"

lemma buffers_ready_store:
  assumes "\<forall>(k, b) \<in> set rv. k \<noteq> root \<longrightarrow> is_executable (G k) \<longrightarrow> b \<noteq> None"
  shows "buffers_ready G (root_value_store root (Some buf) rv)"
  using assms unfolding buffers_ready_def root_value_store_def
  by (auto split: if_splits)

lemma find_roots_collect_spec:
  assumes "distinct (map fst rv)" "buffers_ready G rv"
  shows "distinct (map fst (find_roots_collect d G xs rv))
     \<and> set (map fst (find_roots_collect d G xs rv)) = set (map fst rv) \<union> (fst \<circ> fst) ` set xs
     \<and> buffers_ready G (find_roots_collect d G xs rv)"
  using assms
proof (induction xs arbitrary: rv)
  case Nil
  then show ?case by simp
next
  case (Cons x xs)
  obtain root input_nr input where x: "x = ((root, input_nr), input)"
    by (cases x) auto
  define rv1 where "rv1 = root_value_entry root rv"
  have k1: "distinct (map fst rv1)" "set (map fst rv1) = insert root (set (map fst rv))"
    using Cons.prems(1) by (auto simp: rv1_def keys_root_value_entry)
  have b1: "\<forall>(k, b) \<in> set rv1. k \<noteq> root \<longrightarrow> is_executable (G k) \<longrightarrow> b \<noteq> None"
    using Cons.prems(2) by (auto simp: rv1_def root_value_entry_def buffers_ready_def)
  show ?case
  proof (cases "is_executable (G root)")
    case True
    define buf where "buf = (case map_of rv1 root of Some (Some b) \<Rightarrow> b
                             | _ \<Rightarrow> InputBuffer_new (sint (num_inputs (G root))))"
    define rv2 where
      "rv2 = root_value_store root (Some (InputBuffer_add (add_of d) input_nr input buf)) rv1"
    have step: "find_roots_collect d G (x # xs) rv = find_roots_collect d G xs rv2"
      using True x by (simp add: rv1_def rv2_def buf_def Let_def)
    have k2: "distinct (map fst rv2)" "set (map fst rv2) = insert root (set (map fst rv))"
      using k1 by (simp_all add: rv2_def)
    have b2: "buffers_ready G rv2"
      unfolding rv2_def by (rule buffers_ready_store [OF b1])
    show ?thesis
      unfolding step using Cons.IH [OF k2(1) b2] k2(2) x by simp
  next
    case False
    have step: "find_roots_collect d G (x # xs) rv = find_roots_collect d G xs rv1"
      using False x by (simp add: rv1_def Let_def)
    have b2: "buffers_ready G rv1"
      using b1 False by (auto simp: buffers_ready_def)
    show ?thesis
      unfolding step using Cons.IH [OF k1(1) b2] k1(2) x by simp
  qed
qed

text \<open>
  The GraphTask after \<^verbatim>\<open>find_roots\<close> has queued the executable ones of \<open>roots\<close>.
\<close>

definition queue_roots :: "(addr \<Rightarrow> Function) \<Rightarrow> addr list \<Rightarrow> 'v GraphTask \<Rightarrow> 'v GraphTask" where
  "queue_roots G roots task =
     task\<lparr> outstanding_tasks := outstanding_tasks task
              + of_nat (length (filter (\<lambda>k. is_executable (G k)) roots)),
           has_any_work := has_any_work task \<or> filter (\<lambda>k. is_executable (G k)) roots \<noteq> [] \<rparr>"

lemma queue_roots_Nil [simp]: "queue_roots G [] task = task"
  by (simp add: queue_roots_def)

lemma find_roots_enqueue_spec:
  assumes "buffers_ready G rv"
  shows "\<exists>e'. find_roots_enqueue G rv (roots, e) = (roots @ map fst rv, e')
     \<and> map fn (ready_queue e')
         = rev (filter (\<lambda>k. is_executable (G k)) (map fst rv)) @ map fn (ready_queue e)
     \<and> graph_task e' = queue_roots G (map fst rv) (graph_task e)
     \<and> calls e' = calls e"
  using assms
proof (induction rv arbitrary: roots e)
  case Nil
  then show ?case by simp
next
  case (Cons x rv)
  obtain root input_buf where x: "x = (root, input_buf)" by (cases x)
  have rest: "buffers_ready G rv" using Cons.prems by (simp add: buffers_ready_def)
  show ?case
  proof (cases "is_executable (G root)")
    case False
    have step: "find_roots_enqueue G (x # rv) (roots, e)
                  = find_roots_enqueue G rv (roots @ [root], e)"
      using False x by simp
    show ?thesis
      unfolding step using Cons.IH [OF rest, of "roots @ [root]" e] False x
      by (auto simp: queue_roots_def)
  next
    case True
    then obtain buf where buf: "input_buf = Some buf"
      using Cons.prems x by (auto simp: buffers_ready_def)
    define e1 where "e1 = (push_front \<lparr> fn = root, inputs = buf \<rparr> e)
        \<lparr> graph_task := (graph_task (push_front \<lparr> fn = root, inputs = buf \<rparr> e))
              \<lparr> has_any_work := True \<rparr> \<rparr>"
    have step: "find_roots_enqueue G (x # rv) (roots, e)
                  = find_roots_enqueue G rv (roots @ [root], e1)"
      using True x buf by (simp add: e1_def Let_def)
    have e1: "map fn (ready_queue e1) = root # map fn (ready_queue e)"
      "calls e1 = calls e"
      "graph_task e1 = (graph_task e)\<lparr> outstanding_tasks := outstanding_tasks (graph_task e) + 1,
                                        has_any_work := True \<rparr>"
      by (simp_all add: e1_def push_front_def)
    obtain e' where r: "find_roots_enqueue G rv (roots @ [root], e1)
                          = ((roots @ [root]) @ map fst rv, e')"
      "map fn (ready_queue e')
         = rev (filter (\<lambda>k. is_executable (G k)) (map fst rv)) @ map fn (ready_queue e1)"
      "graph_task e' = queue_roots G (map fst rv) (graph_task e1)"
      "calls e' = calls e1"
      using Cons.IH [OF rest, of "roots @ [root]" e1] by blast
    have gt: "graph_task e' = queue_roots G (map fst (x # rv)) (graph_task e)"
      using r(3) e1(3) True x by (simp add: queue_roots_def add.assoc)
    show ?thesis
      unfolding step using r(1,2,4) e1(1,2) gt True x by simp
  qed
qed

lemma roots_of_pairs:
  "(fst \<circ> fst) ` set (map (\<lambda>i. (input_roots ! i, ins ! i)) [0..<length input_roots])
     = fst ` set input_roots"
proof -
  have "(fst \<circ> fst) ` set (map (\<lambda>i. (input_roots ! i, ins ! i)) [0..<length input_roots])
          = set (map fst (map ((!) input_roots) [0..<length input_roots]))"
    by (simp add: image_image comp_def)
  also have "\<dots> = fst ` set input_roots"
    by (simp only: map_nth set_map)
  finally show ?thesis .
qed

lemma find_roots_spec:
  "\<exists>roots e1. find_roots d G input_roots ins e = (roots, e1)
     \<and> distinct roots \<and> set roots = fst ` set input_roots
     \<and> map fn (ready_queue e1)
         = rev (filter (\<lambda>k. is_executable (G k)) roots) @ map fn (ready_queue e)
     \<and> graph_task e1 = queue_roots G roots (graph_task e)
     \<and> calls e1 = calls e"
proof -
  define rv where "rv = find_roots_collect d G
          (map (\<lambda>i. (input_roots ! i, ins ! i)) [0..<length input_roots]) []"
  have c: "distinct (map fst rv)" "set (map fst rv) = fst ` set input_roots"
    "buffers_ready G rv"
    using find_roots_collect_spec [of "[]" G d
            "map (\<lambda>i. (input_roots ! i, ins ! i)) [0..<length input_roots]"]
          roots_of_pairs [of input_roots ins]
    by (simp_all add: rv_def buffers_ready_def)
  show ?thesis
    using find_roots_enqueue_spec [OF c(3), of "[]" e] c(1,2)
    by (auto simp: find_roots_def rv_def [symmetric])
qed

subsection \<open>The Functions an execute applies\<close>

text \<open>
  The Functions an execute is to apply, for the set \<open>Rs\<close> of its root Functions: the
  executable Functions among the roots, the stochastic executable Functions reachable
  from a root, and whatever the dependency computation reaches from those.
\<close>

definition applied_functions :: "(addr \<Rightarrow> Function) \<Rightarrow> addr set \<Rightarrow> addr set" where
  "applied_functions G Rs =
     {f \<in> dep_reach G (Rs \<union> {t \<in> reach_plus G Rs. runs_unasked G t}). is_executable (G f)}"

text \<open>
  The edges out of the Functions of \<open>A\<close> descend when each leads to a Function of lower
  rank, so that no cycle runs through \<open>A\<close>.
\<close>

definition edges_descend :: "(addr \<Rightarrow> Function) \<Rightarrow> addr set \<Rightarrow> (addr \<Rightarrow> nat) \<Rightarrow> bool" where
  "edges_descend G A rank \<longleftrightarrow>
     (\<forall>s \<in> A. \<forall>t nr. (Some t, nr) \<in> set (next_functions (G s)) \<longrightarrow> rank t < rank s)"

lemma dep_reach_subset:
  assumes "S \<subseteq> reach_plus G Rs"
  shows "dep_reach G (Rs \<union> S) \<subseteq> Rs \<union> reach_plus G Rs"
proof
  fix x assume "x \<in> dep_reach G (Rs \<union> S)"
  then show "x \<in> Rs \<union> reach_plus G Rs"
  proof (induction rule: dep_reach.induct)
    case (frontier f)
    with assms show ?case by blast
  next
    case (edge s t nr)
    then show ?case using reach_plus.first reach_plus.step by blast
  qed
qed

lemma dep_reach_no_work:
  assumes "\<forall>f \<in> F. \<not> is_executable (G f)" "x \<in> dep_reach G F"
  shows "\<not> is_executable (G x)"
  using assms(2,1) by (induction rule: dep_reach.induct) auto

lemma in_count_executable:
  "in_count G {s \<in> S. is_executable (G s)} t = in_count G S t"
proof -
  have "{s \<in> {s \<in> S. is_executable (G s)}. is_executable (G s)} = {s \<in> S. is_executable (G s)}"
    by auto
  then show ?thesis by (simp add: in_count_def)
qed

lemma in_count_reached:
  assumes "finite (dep_reach G F)" "x \<in> dep_reach G F" "x \<notin> F"
  shows "0 < in_count G (dep_reach G F) x"
  using assms(2,3)
proof (cases rule: dep_reach.cases)
  case (frontier)
  with assms(3) show ?thesis by simp
next
  case (edge s nr)
  then have pos: "0 < edge_mult (next_functions (G s)) x" by (auto simp: edge_mult_pos)
  have fin: "finite {s \<in> dep_reach G F. is_executable (G s)}" using assms(1) by simp
  have "edge_mult (next_functions (G s)) x
          \<le> (\<Sum>s \<in> {s \<in> dep_reach G F. is_executable (G s)}. edge_mult (next_functions (G s)) x)"
    using edge(1,2) by (intro member_le_sum [OF _ _ fin]) auto
  with pos edge(4) show ?thesis by (simp add: in_count_def)
qed

lemma count_list_distinct:
  "distinct xs \<Longrightarrow> count_list xs x = (if x \<in> set xs then 1 else 0)"
  by (induction xs) auto



section \<open>Concrete stores\<close>

text \<open>The store before anything is allocated; unallocated cells hold default objects.\<close>

definition blank_Variable :: Variable where
  "blank_Variable =
     \<lparr> data = None, grad_fn = None, grad = None, version_counter = 0,
       requires_grad = False, is_volatile = False, output_nr = 0,
       grad_accumulator = None, hooks = [] \<rparr>"

definition empty_store :: store where
  "empty_store =
     \<lparr> vars = (\<lambda>_. blank_Variable), var_alive = {}, var_next = 0,
       fns = (\<lambda>_. Function_default),
       acc_members = (\<lambda>_. \<lparr> variable = None, variable_grad = None \<rparr>),
       fn_alive = {}, fn_next = 0,
       versions = (\<lambda>_. 0), ver_next = 0,
       storages = (\<lambda>_. []), sto_next = 0 \<rparr>"

text \<open>A dense CPU tensor on storage 0.\<close>

definition cpu_tensor :: tensor where
  "cpu_tensor = \<lparr> storage = 0, is_sparse = False, device = - 1 \<rparr>"

text \<open>
  A SavedVariable without data whose expected version (5) differs from the current value
  of its counter in the empty store (0).
\<close>

definition saved_no_data :: SavedVariable where
  "saved_no_data =
     \<lparr> sv_data = None, sv_version = 0, sv_expected_version = 5,
       sv_requires_grad = True, sv_is_volatile = False,
       sv_grad_fn = None, sv_weak_grad_fn = None, sv_grad_accumulator = None \<rparr>"

section \<open>Properties of Variable and SavedVariable\<close>

text \<open>
  C9: \<^verbatim>\<open>SavedVariable::unpack\<close> returns a null pointer whenever no data was saved: it does
  not raise, does not look at the version counter and leaves the store as it is.
\<close>

theorem unpack_without_data_returns_null:
  "sv_data sv = None \<Longrightarrow> unpack sv st = (Inr None, st)"
  by (simp add: unpack_def)

theorem unpack_without_data_returns_null_witness:
  "sv_data saved_no_data = None
   \<and> sv_expected_version saved_no_data \<noteq> version_value empty_store (sv_version saved_no_data)
   \<and> unpack saved_no_data empty_store = (Inr None, empty_store)"
  using unpack_without_data_returns_null [of saved_no_data empty_store]
  by (simp add: saved_no_data_def empty_store_def version_value_def)

text \<open>
  A Function built from flags that say volatile; the Function keeps no volatile flag.
\<close>

definition volatile_flags :: FunctionFlags where
  "volatile_flags =
     \<lparr> ff_is_executable = False, ff_is_volatile = True, ff_next_functions = [] \<rparr>"

definition volatile_op_store :: store where
  "volatile_op_store =
     empty_store\<lparr> fns := (fns empty_store)(0 := Function_of_flags volatile_flags),
                  fn_alive := {0}, fn_next := 1 \<rparr>"

text \<open>
  The same op when 2147483647 output Variables have been built on it.
\<close>

definition full_op_store :: store where
  "full_op_store =
     volatile_op_store\<lparr> fns := (fns volatile_op_store)(0 :=
                            (fns volatile_op_store 0)\<lparr> num_inputs := 2147483647 \<rparr>) \<rparr>"

text \<open>
  C5, as stated, fails: the constructor taking a \<^verbatim>\<open>grad_fn\<close> never inherits volatility.
  For an op whose flags were computed as volatile, the output Variable built on the op is
  not volatile. And \<^verbatim>\<open>num_inputs\<close> is a 32-bit \<^verbatim>\<open>int\<close>: built on an op whose \<^verbatim>\<open>num_inputs\<close>
  is 2147483647, the output Variable leaves it at -2147483648, not at one more.
\<close>

theorem output_Variable_volatility_counterexample:
  "is_volatile (projr (fst (Variable_ctor_grad_fn (Some cpu_tensor) (Some 0) volatile_op_store)))
     \<noteq> ff_is_volatile volatile_flags
   \<and> sint (num_inputs (fns (snd (Variable_ctor_grad_fn (Some cpu_tensor) (Some 0)
                                    full_op_store)) 0))
     \<noteq> sint (num_inputs (fns full_op_store 0)) + 1"
  by (simp add: Variable_ctor_grad_fn_def new_VariableVersion_def volatile_op_store_def
        full_op_store_def volatile_flags_def empty_store_def Let_def)

text \<open>
  C5, amended: a Variable constructed on a non-null \<^verbatim>\<open>grad_fn\<close> with a non-null tensor
  has that \<^verbatim>\<open>grad_fn\<close>, has \<^verbatim>\<open>requires_grad == grad_fn.is_executable\<close>, is never volatile,
  and has \<^verbatim>\<open>output_nr\<close> equal to the op's \<^verbatim>\<open>num_inputs\<close> before the construction. The
  construction increments the op's \<^verbatim>\<open>num_inputs\<close> as a 32-bit \<^verbatim>\<open>int\<close>: by exactly one
  when it was below 2147483647, and from 2147483647 around to -2147483648.
\<close>

theorem output_Variable_flags:
  "\<exists>v st'. Variable_ctor_grad_fn (Some t) (Some gf) st = (Inr v, st')
     \<and> grad_fn v = Some gf
     \<and> requires_grad v = is_executable (fns st gf)
     \<and> is_volatile v = False
     \<and> output_nr v = num_inputs (fns st gf)
     \<and> num_inputs (fns st' gf) = num_inputs (fns st gf) + 1
     \<and> (sint (num_inputs (fns st gf)) < 2147483647
          \<longrightarrow> sint (num_inputs (fns st' gf)) = sint (num_inputs (fns st gf)) + 1)
     \<and> (sint (num_inputs (fns st gf)) = 2147483647
          \<longrightarrow> sint (num_inputs (fns st' gf)) = - 2147483648)"
proof -
  have below: "sint (w + 1) = sint w + 1" if "sint w < 2147483647" for w :: "32 word"
    using that sint_ge [of w] sint_lt [of w]
    by (simp add: sint_word_ariths signed_take_bit_int_eq_self)
  have top: "sint (w + 1) = - 2147483648" if "sint w = 2147483647" for w :: "32 word"
  proof -
    have "sint w = sint (2147483647 :: 32 word)" using that by simp
    then have "w = 2147483647" by (simp only: signed_word_eqI)
    then show ?thesis by simp
  qed
  show ?thesis
    using below top
    by (simp add: Variable_ctor_grad_fn_def new_VariableVersion_def Let_def)
qed

theorem output_Variable_flags_witness:
  "sint (num_inputs (fns volatile_op_store 0)) < 2147483647
   \<and> sint (num_inputs (fns (snd (Variable_ctor_grad_fn (Some cpu_tensor) (Some 0)
                                    volatile_op_store)) 0)) = 1
   \<and> sint (num_inputs (fns full_op_store 0)) = 2147483647
   \<and> sint (num_inputs (fns (snd (Variable_ctor_grad_fn (Some cpu_tensor) (Some 0)
                                    full_op_store)) 0)) = - 2147483648"
  using output_Variable_flags [of cpu_tensor 0 volatile_op_store]
        output_Variable_flags [of cpu_tensor 0 full_op_store]
  by (simp add: Variable_ctor_grad_fn_def new_VariableVersion_def volatile_op_store_def
        full_op_store_def volatile_flags_def Function_of_flags_def empty_store_def Let_def)

text \<open>A leaf Variable at address 0 that requires grad, and nothing else.\<close>

definition leaf_store :: store where
  "leaf_store =
     empty_store\<lparr> vars := (vars empty_store)(0 :=
                     blank_Variable\<lparr> data := Some cpu_tensor, requires_grad := True \<rparr>),
                  var_alive := {0}, var_next := 1, ver_next := 1 \<rparr>"

text \<open>
  C8, as stated, fails: the accumulator is cached through a weak pointer. When the
  accumulator returned by a first call has been destroyed (its last owner let it go), a
  second call on the same live leaf creates and returns another instance.
\<close>

theorem get_grad_accumulator_same_instance_counterexample:
  "fst (get_grad_accumulator 0 leaf_store) = Some 0
   \<and> fst (get_grad_accumulator 0
            (release_Function 0 (snd (get_grad_accumulator 0 leaf_store)))) = Some 1"
  by (simp add: get_grad_accumulator_def leaf_store_def empty_store_def blank_Variable_def
        fn_lock_def fn_expired_def make_shared_AccumulateGrad_def release_Function_def)

text \<open>
  C8, amended: \<^verbatim>\<open>get_grad_accumulator\<close> returns null for every Variable whose
  \<^verbatim>\<open>grad_fn\<close> is set, whatever \<^verbatim>\<open>requires_grad\<close> is, and for every Variable without
  \<^verbatim>\<open>grad_fn\<close> that does not require grad. For a leaf that requires grad it returns a live
  AccumulateGrad bound to the leaf, and every later call returns that same instance for as
  long as the instance is alive and the leaf still has no \<^verbatim>\<open>grad_fn\<close>, requires grad and
  keeps its cached pointer.
\<close>

theorem get_grad_accumulator_contract:
  "(grad_fn (vars st this) \<noteq> None \<longrightarrow> get_grad_accumulator this st = (None, st))
   \<and> (grad_fn (vars st this) = None \<and> \<not> requires_grad (vars st this)
        \<longrightarrow> get_grad_accumulator this st = (None, st))
   \<and> (grad_fn (vars st this) = None \<and> requires_grad (vars st this)
        \<longrightarrow> (\<exists>a st1. get_grad_accumulator this st = (Some a, st1)
               \<and> a \<in> fn_alive st1
               \<and> grad_accumulator (vars st1 this) = Some a
               \<and> (\<forall>st2. a \<in> fn_alive st2
                        \<and> grad_accumulator (vars st2 this) = Some a
                        \<and> grad_fn (vars st2 this) = None \<and> requires_grad (vars st2 this)
                     \<longrightarrow> get_grad_accumulator this st2 = (Some a, st2))))"
proof (intro conjI impI)
  assume "grad_fn (vars st this) \<noteq> None"
  then show "get_grad_accumulator this st = (None, st)"
    by (simp add: get_grad_accumulator_def Let_def)
next
  assume "grad_fn (vars st this) = None \<and> \<not> requires_grad (vars st this)"
  then show "get_grad_accumulator this st = (None, st)"
    by (simp add: get_grad_accumulator_def Let_def)
next
  assume leaf: "grad_fn (vars st this) = None \<and> requires_grad (vars st this)"
  have again: "get_grad_accumulator this st2 = (Some a, st2)"
    if "a \<in> fn_alive st2 \<and> grad_accumulator (vars st2 this) = Some a
        \<and> grad_fn (vars st2 this) = None \<and> requires_grad (vars st2 this)" for a st2
    using that by (simp add: get_grad_accumulator_def Let_def fn_lock_def fn_expired_def)
  show "\<exists>a st1. get_grad_accumulator this st = (Some a, st1)
          \<and> a \<in> fn_alive st1 \<and> grad_accumulator (vars st1 this) = Some a
          \<and> (\<forall>st2. a \<in> fn_alive st2 \<and> grad_accumulator (vars st2 this) = Some a
                   \<and> grad_fn (vars st2 this) = None \<and> requires_grad (vars st2 this)
                \<longrightarrow> get_grad_accumulator this st2 = (Some a, st2))"
  proof (cases "fn_lock st (grad_accumulator (vars st this))")
    case None
    with leaf have "get_grad_accumulator this st =
        (Some (fn_next st),
         (snd (make_shared_AccumulateGrad this st))
           \<lparr> vars := (vars (snd (make_shared_AccumulateGrad this st)))(this :=
               (vars (snd (make_shared_AccumulateGrad this st)) this)
                 \<lparr> grad_accumulator := Some (fn_next st) \<rparr>) \<rparr>)"
      by (simp add: get_grad_accumulator_def Let_def make_shared_AccumulateGrad_def)
    then show ?thesis
      using again by (auto simp: make_shared_AccumulateGrad_def)
  next
    case (Some a)
    then have a: "grad_accumulator (vars st this) = Some a" "a \<in> fn_alive st"
      by (auto simp: fn_lock_def fn_expired_def split: if_splits option.splits)
    with leaf Some have "get_grad_accumulator this st = (Some a, st)"
      by (simp add: get_grad_accumulator_def Let_def)
    then show ?thesis
      using a again by auto
  qed
qed

theorem get_grad_accumulator_contract_witness:
  "grad_fn (vars leaf_store 0) = None \<and> requires_grad (vars leaf_store 0)
   \<and> fst (get_grad_accumulator 0 leaf_store) = Some 0
   \<and> get_grad_accumulator 0 (snd (get_grad_accumulator 0 leaf_store))
       = (Some 0, snd (get_grad_accumulator 0 leaf_store))
   \<and> grad_fn (vars volatile_op_store 0) = None \<and> \<not> requires_grad (vars volatile_op_store 0)
   \<and> get_grad_accumulator 0 volatile_op_store = (None, volatile_op_store)"
  using get_grad_accumulator_contract [of leaf_store 0]
        get_grad_accumulator_contract [of volatile_op_store 0]
  by (simp add: get_grad_accumulator_def leaf_store_def volatile_op_store_def empty_store_def
        blank_Variable_def fn_lock_def fn_expired_def make_shared_AccumulateGrad_def)

text \<open>
  A store with one version block (address 0, value 0) and one live Function (address 0),
  and a SavedVariable of a non-leaf taken at version 0.
\<close>

definition saved_store :: store where
  "saved_store = empty_store\<lparr> ver_next := 1, fn_alive := {0}, fn_next := 1 \<rparr>"

definition saved_with_data :: SavedVariable where
  "saved_with_data =
     \<lparr> sv_data = Some cpu_tensor, sv_version = 0, sv_expected_version = 0,
       sv_requires_grad = True, sv_is_volatile = False,
       sv_grad_fn = None, sv_weak_grad_fn = Some 0, sv_grad_accumulator = None \<rparr>"

text \<open>
  C2: with saved data present, \<^verbatim>\<open>unpack\<close> raises the in-place-modification error exactly
  when the current value of the saved version counter differs from the expected version.
  When they are equal, it raises the logic error if the saved Variable requires grad, has no
  strong \<^verbatim>\<open>grad_fn\<close>, and both the weak \<^verbatim>\<open>grad_fn\<close> and the grad accumulator have
  expired; otherwise it returns a fresh Variable whose data is a shallow clone of the saved
  data, whose version counter is the saved counter, whose \<^verbatim>\<open>grad_fn\<close> is the strong
  reference or else the live weak one, and which carries the saved flags and accumulator.
\<close>

theorem unpack_contract:
  assumes "sv_data sv = Some d"
  shows "(fst (unpack sv st) = Inl InplaceModified
            \<longleftrightarrow> version_value st (sv_version sv) \<noteq> sv_expected_version sv)
    \<and> (version_value st (sv_version sv) = sv_expected_version sv \<longrightarrow>
         (if sv_requires_grad sv \<and> sv_grad_fn sv = None
             \<and> fn_expired st (sv_weak_grad_fn sv) \<and> fn_expired st (sv_grad_accumulator sv)
          then unpack sv st = (Inl NoGradAccumulator, st)
          else \<exists>st'. unpack sv st = (Inr (Some (var_next st)), st')
                 \<and> var_next st \<in> var_alive st'
                 \<and> data (vars st' (var_next st)) = Some (clone_shallow d)
                 \<and> storage (clone_shallow d) = storage d
                 \<and> version_counter (vars st' (var_next st)) = sv_version sv
                 \<and> grad_fn (vars st' (var_next st))
                     = (case sv_grad_fn sv of Some g \<Rightarrow> Some g
                        | None \<Rightarrow> fn_lock st (sv_weak_grad_fn sv))
                 \<and> grad_accumulator (vars st' (var_next st)) = sv_grad_accumulator sv
                 \<and> requires_grad (vars st' (var_next st)) = sv_requires_grad sv
                 \<and> is_volatile (vars st' (var_next st)) = sv_is_volatile sv
                 \<and> (\<forall>p. p \<noteq> var_next st \<longrightarrow> vars st' p = vars st p)))"
proof -
  let ?st1 = "snd (new_VariableVersion st)"
  have ctor: "Variable_ctor (Some (clone_shallow d)) rg vol st
      = (Inr \<lparr> data = Some (clone_shallow d), grad_fn = None, grad = None,
               version_counter = ver_next st, requires_grad = rg,
               is_volatile = vol, output_nr = 0,
               grad_accumulator = None, hooks = [] \<rparr>, ?st1)" for rg vol
    by (simp add: Variable_ctor_def new_VariableVersion_def)
  have st1: "vars ?st1 = vars st" "var_next ?st1 = var_next st"
    by (simp_all add: new_VariableVersion_def)
  have cs: "storage (clone_shallow d) = storage d"
    by (simp add: clone_shallow_def)
  have exp: "fn_expired ?st1 w = fn_expired st w" for w
    by (simp add: fn_expired_def new_VariableVersion_def split: option.splits)
  have lock: "fn_lock ?st1 w = fn_lock st w" for w
    by (simp add: fn_lock_def exp)
  have neq: "fst (unpack sv st) = Inl InplaceModified"
    if "version_value st (sv_version sv) \<noteq> sv_expected_version sv"
    using that assms by (auto simp: unpack_def Let_def)
  have eq: "fst (unpack sv st) \<noteq> Inl InplaceModified"
    if "version_value st (sv_version sv) = sv_expected_version sv"
    using that assms by (auto simp: unpack_def Let_def ctor make_shared_Variable_def)
  have part1: "fst (unpack sv st) = Inl InplaceModified
      \<longleftrightarrow> version_value st (sv_version sv) \<noteq> sv_expected_version sv"
    using neq eq by blast
  have part2: "unpack sv st = (Inl NoGradAccumulator, st)"
    if "version_value st (sv_version sv) = sv_expected_version sv"
       "sv_requires_grad sv \<and> sv_grad_fn sv = None
        \<and> fn_expired st (sv_weak_grad_fn sv) \<and> fn_expired st (sv_grad_accumulator sv)"
    using that assms by (simp add: unpack_def Let_def ctor exp)
  have part3: "\<exists>st'. unpack sv st = (Inr (Some (var_next st)), st')
                 \<and> var_next st \<in> var_alive st'
                 \<and> data (vars st' (var_next st)) = Some (clone_shallow d)
                 \<and> storage (clone_shallow d) = storage d
                 \<and> version_counter (vars st' (var_next st)) = sv_version sv
                 \<and> grad_fn (vars st' (var_next st))
                     = (case sv_grad_fn sv of Some g \<Rightarrow> Some g
                        | None \<Rightarrow> fn_lock st (sv_weak_grad_fn sv))
                 \<and> grad_accumulator (vars st' (var_next st)) = sv_grad_accumulator sv
                 \<and> requires_grad (vars st' (var_next st)) = sv_requires_grad sv
                 \<and> is_volatile (vars st' (var_next st)) = sv_is_volatile sv
                 \<and> (\<forall>p. p \<noteq> var_next st \<longrightarrow> vars st' p = vars st p)"
    if "version_value st (sv_version sv) = sv_expected_version sv"
       "\<not> (sv_requires_grad sv \<and> sv_grad_fn sv = None
        \<and> fn_expired st (sv_weak_grad_fn sv) \<and> fn_expired st (sv_grad_accumulator sv))"
    using that assms cs
    by (auto simp: unpack_def Let_def ctor exp lock make_shared_Variable_def join_with_def
          st1 fn_lock_def split: option.splits)
  show ?thesis
    using part1 part2 part3 by simp
qed

theorem unpack_contract_witness:
  "sv_data saved_with_data = Some cpu_tensor
   \<and> version_value saved_store (sv_version saved_with_data)
       = sv_expected_version saved_with_data
   \<and> \<not> fn_expired saved_store (sv_weak_grad_fn saved_with_data)
   \<and> fst (unpack saved_with_data saved_store) = Inr (Some 0)
   \<and> data (vars (snd (unpack saved_with_data saved_store)) 0) = Some (clone_shallow cpu_tensor)
   \<and> grad_fn (vars (snd (unpack saved_with_data saved_store)) 0) = Some 0
   \<and> version_counter (vars (snd (unpack saved_with_data saved_store)) 0) = 0"
  using unpack_contract [of saved_with_data cpu_tensor saved_store]
  by (simp add: unpack_def saved_with_data_def saved_store_def empty_store_def
        version_value_def fn_expired_def fn_lock_def Variable_ctor_def
        new_VariableVersion_def make_shared_Variable_def join_with_def Let_def)

text \<open>
  A store with a leaf at address 0 that requires grad and is bound to the AccumulateGrad
  at address 0, an incoming gradient at address 1 with the elements 1, 2 and another
  Variable at address 2 with the elements 10, 20. In \<open>hooked_store\<close> the leaf has one
  hook, and the hook returns the Variable at address 2 whatever it is given.
\<close>

definition grad_store :: store where
  "grad_store =
     empty_store\<lparr>
       vars := (vars empty_store)
         (0 := blank_Variable\<lparr> data := Some \<lparr> storage = 0, is_sparse = False, device = - 1 \<rparr>,
                                requires_grad := True, grad_accumulator := Some 0 \<rparr>,
          1 := blank_Variable\<lparr> data := Some \<lparr> storage = 1, is_sparse = False, device = - 1 \<rparr>,
                                version_counter := 1 \<rparr>,
          2 := blank_Variable\<lparr> data := Some \<lparr> storage = 2, is_sparse = False, device = - 1 \<rparr>,
                                version_counter := 2 \<rparr>),
       var_alive := {0, 1, 2}, var_next := 3,
       fns := (fns empty_store)(0 := Function_default\<lparr> is_executable := True, num_inputs := 1 \<rparr>),
       acc_members := (acc_members empty_store)(0 := \<lparr> variable = Some 0, variable_grad = None \<rparr>),
       fn_alive := {0}, fn_next := 1, ver_next := 3,
       storages := (storages empty_store)(0 := [5, 6], 1 := [1, 2], 2 := [10, 20]),
       sto_next := 3 \<rparr>"

definition hooked_store :: store where
  "hooked_store =
     grad_store\<lparr> vars := (vars grad_store)(0 := (vars grad_store 0)\<lparr> hooks := [0] \<rparr>) \<rparr>"

definition replacing_hook :: hook_semantics where
  "replacing_hook = (\<lambda>hook ins st. (Inr [Some 2], st))"

lemma Clone_apply_result:
  assumes "data (vars st x) = Some t" "storage t \<noteq> sto_next st"
  shows "\<exists>st'. Clone_apply [Some x] st = (Inr [Some (var_next st)], st')
     \<and> var_alive st' = insert (var_next st) (var_alive st)
     \<and> data (vars st' (var_next st))
         = Some \<lparr> storage = sto_next st, is_sparse = is_sparse t, device = device t \<rparr>
     \<and> storages st' = (storages st)(sto_next st := storages st (storage t))
     \<and> fn_alive st' = fn_alive st \<and> acc_members st' = acc_members st
     \<and> (\<forall>p. p \<noteq> var_next st \<longrightarrow> vars st' p = vars st p)"
  using assms
  by (simp add: Clone_apply_def newTensor_def Variable_ctor_def new_VariableVersion_def
        make_shared_Variable_def Let_def)

text \<open>
  C6, as stated, fails: the hooks of the leaf run before the gradient is stored, and what
  is cloned is the gradient the hooks return. With the hook of \<open>hooked_store\<close>, the grad
  of the leaf after the call has the elements 10, 20, while the incoming gradient has the
  elements 1, 2.
\<close>

theorem accumulate_first_grad_counterexample:
  "fst (AccumulateGrad_apply replacing_hook 0 [Some 1] hooked_store) = Inr []
   \<and> grad (vars (snd (AccumulateGrad_apply replacing_hook 0 [Some 1] hooked_store)) 0) = Some 3
   \<and> elements (snd (AccumulateGrad_apply replacing_hook 0 [Some 1] hooked_store)) 3
       = Some [10, 20]
   \<and> elements hooked_store 1 = Some [1, 2]"
  by (simp add: AccumulateGrad_apply_def grad_store_def hooked_store_def replacing_hook_def
        empty_store_def blank_Variable_def var_lock_def var_expired_def version_value_def
        get_grad_accumulator_def fn_lock_def fn_expired_def Let_def make_shared_Function_def
        Clone_apply_def newTensor_def Variable_ctor_def new_VariableVersion_def
        make_shared_Variable_def release_Function_def elements_def Function_default_def)

text \<open>
  C6, amended: when \<^verbatim>\<open>AccumulateGrad::apply\<close> runs with one incoming gradient \<open>g\<close> on a
  live leaf that passes its checks (no \<^verbatim>\<open>grad_fn\<close>, version counter zero, requires grad and
  is bound to this accumulator), and the leaf has no grad once its hooks have run and
  returned the gradient \<open>g'\<close> (which is \<open>g\<close> itself when the leaf has no hooks), it sets the
  grad of the leaf, and its own \<^verbatim>\<open>variable_grad\<close>, to the output of a fresh Clone node
  applied to \<open>g'\<close>: a Variable that did not exist before, tensor-equal to \<open>g'\<close>, on a storage
  of its own.
\<close>

theorem accumulate_first_grad:
  assumes live: "var_lock st (variable (acc_members st this)) = Some leaf"
    and leaf: "grad_fn (vars st leaf) = None"
              "version_value st (version_counter (vars st leaf)) = 0"
              "requires_grad (vars st leaf)"
    and bound: "grad_accumulator (vars st leaf) = Some this" "this \<in> fn_alive st"
    and hooks: "run_hooks hook_of (hooks (vars st leaf)) (Some g) st = (Inr (Some g'), st3)"
    and no_grad: "grad (vars st3 leaf) = None"
    and g': "g' \<in> var_alive st3" "data (vars st3 g') = Some t" "store_wf st3"
  shows "\<exists>stf c. AccumulateGrad_apply hook_of this [Some g] st = (Inr [], stf)
           \<and> grad (vars stf leaf) = Some c
           \<and> variable_grad (acc_members stf this) = Some c
           \<and> c \<in> var_alive stf \<and> c \<notin> var_alive st3 \<and> c \<noteq> g'
           \<and> elements stf c = elements st3 g'
           \<and> map_option storage (data (vars stf c)) \<noteq> map_option storage (data (vars st3 g'))"
proof -
  have acc: "get_grad_accumulator leaf st = (Some this, st)"
    using leaf bound
    by (simp add: get_grad_accumulator_def Let_def fn_lock_def fn_expired_def)
  have fresh: "var_next st3 \<notin> var_alive st3" "g' \<noteq> var_next st3" "storage t \<noteq> sto_next st3"
    using g' by (auto simp: store_wf_def)
  obtain st5 where cl: "Clone_apply [Some g'] (snd (make_shared_Function st3))
                          = (Inr [Some (var_next st3)], st5)"
    and st5: "var_alive st5 = insert (var_next st3) (var_alive st3)"
       "data (vars st5 (var_next st3))
         = Some \<lparr> storage = sto_next st3, is_sparse = is_sparse t, device = device t \<rparr>"
       "storages st5 = (storages st3)(sto_next st3 := storages st3 (storage t))"
       "acc_members st5 = acc_members st3"
       "\<forall>p. p \<noteq> var_next st3 \<longrightarrow> vars st5 p = vars st3 p"
    using Clone_apply_result [of "snd (make_shared_Function st3)" g' t] g'(2) fresh(3)
    by (auto simp: make_shared_Function_def)
  let ?stf = "release_Function (fn_next st3)
                (st5\<lparr> vars := (vars st5)(leaf := (vars st5 leaf)\<lparr> grad := Some (var_next st3) \<rparr>),
                      acc_members := (acc_members st5)(this :=
                        (acc_members st5 this)\<lparr> variable_grad := Some (var_next st3) \<rparr>) \<rparr>)"
  have res: "AccumulateGrad_apply hook_of this [Some g] st = (Inr [], ?stf)"
    using live leaf bound acc hooks no_grad cl
    by (simp add: AccumulateGrad_apply_def Let_def make_shared_Function_def)
  have el: "elements ?stf (var_next st3) = elements st3 g'"
    using st5 g'(2) fresh by (auto simp: elements_def release_Function_def)
  show ?thesis
    using res el st5 fresh g'(2)
    by (intro exI [of _ ?stf] exI [of _ "var_next st3"])
       (auto simp: release_Function_def)
qed

theorem accumulate_first_grad_witness:
  "var_lock grad_store (variable (acc_members grad_store 0)) = Some 0
   \<and> grad_fn (vars grad_store 0) = None
   \<and> version_value grad_store (version_counter (vars grad_store 0)) = 0
   \<and> requires_grad (vars grad_store 0)
   \<and> grad_accumulator (vars grad_store 0) = Some 0 \<and> 0 \<in> fn_alive grad_store
   \<and> run_hooks replacing_hook (hooks (vars grad_store 0)) (Some 1) grad_store
        = (Inr (Some 1), grad_store)
   \<and> grad (vars grad_store 0) = None
   \<and> 1 \<in> var_alive grad_store \<and> store_wf grad_store
   \<and> fst (AccumulateGrad_apply replacing_hook 0 [Some 1] grad_store) = Inr []
   \<and> grad (vars (snd (AccumulateGrad_apply replacing_hook 0 [Some 1] grad_store)) 0) = Some 3
   \<and> elements (snd (AccumulateGrad_apply replacing_hook 0 [Some 1] grad_store)) 3
        = Some [1, 2]"
  using accumulate_first_grad
          [of grad_store 0 0 replacing_hook 1 1 grad_store
              "\<lparr> storage = 1, is_sparse = False, device = - 1 \<rparr>"]
  by (simp add: AccumulateGrad_apply_def grad_store_def replacing_hook_def
        empty_store_def blank_Variable_def var_lock_def var_expired_def version_value_def
        get_grad_accumulator_def fn_lock_def fn_expired_def Let_def make_shared_Function_def
        Clone_apply_def newTensor_def Variable_ctor_def new_VariableVersion_def
        make_shared_Variable_def release_Function_def elements_def Function_default_def
        store_wf_def)

text \<open>
  C10: both Variable constructors raise the runtime error when the tensor pointer is null
  (the one taking a \<^verbatim>\<open>grad_fn\<close> when that pointer is not null: a null \<^verbatim>\<open>grad_fn\<close> is
  dereferenced before the tensor is looked at, and no Variable is constructed then either),
  so a Variable that was constructed holds a non-null data tensor. And no operation of
  variable.cpp and accumulate_grad.cpp takes the data of a live Variable away: sharing a
  constructed Variable, \<^verbatim>\<open>get_grad_accumulator\<close>, \<^verbatim>\<open>unpack\<close>, \<^verbatim>\<open>acc_inplace\<close> (the one place
  outside the constructors that assigns \<^verbatim>\<open>data\<close>) and \<^verbatim>\<open>AccumulateGrad::apply\<close>, run with
  hooks that keep the invariant, lead from a store in which every live Variable has data
  to another such store.
\<close>

theorem constructed_Variable_has_data:
  "fst (Variable_ctor None rg vol st) = Inl VariableDataNull
   \<and> fst (Variable_ctor_grad_fn None (Some f) st) = Inl VariableDataNull
   \<and> fst (Variable_ctor_grad_fn d None st) = Inl UndefinedBehaviour
   \<and> (fst (Variable_ctor d rg vol st) = Inr v \<longrightarrow> data v \<noteq> None)
   \<and> (fst (Variable_ctor_grad_fn d gf st) = Inr v' \<longrightarrow> data v' \<noteq> None)
   \<and> (data_invariant st \<longrightarrow>
         (\<forall>st1. Variable_ctor d rg vol st = (Inr v, st1)
                 \<longrightarrow> data_invariant (snd (make_shared_Variable v st1)))
       \<and> (\<forall>st1. Variable_ctor_grad_fn d gf st = (Inr v', st1)
                 \<longrightarrow> data_invariant (snd (make_shared_Variable v' st1)))
       \<and> data_invariant (snd (Variable_ctor d rg vol st))
       \<and> data_invariant (snd (Variable_ctor_grad_fn d gf st))
       \<and> data_invariant (snd (get_grad_accumulator this st))
       \<and> data_invariant (snd (unpack sv st))
       \<and> data_invariant (snd (acc_inplace g ng st))
       \<and> (hooks_keep_data hook_of
             \<longrightarrow> data_invariant (snd (AccumulateGrad_apply hook_of acc grads st))))"
proof -
  have c1: "fst (Variable_ctor None rg vol st) = Inl VariableDataNull"
    by (simp add: Variable_ctor_def new_VariableVersion_def)
  have c2: "fst (Variable_ctor_grad_fn None (Some f) st) = Inl VariableDataNull"
    by (simp add: Variable_ctor_grad_fn_def new_VariableVersion_def Let_def)
  have c3: "fst (Variable_ctor_grad_fn d None st) = Inl UndefinedBehaviour"
    by (simp add: Variable_ctor_grad_fn_def)
  have c4: "fst (Variable_ctor d rg vol st) = Inr v \<longrightarrow> data v \<noteq> None"
    using Variable_ctor_data [of d rg vol st v] by (cases "Variable_ctor d rg vol st") auto
  have c5: "fst (Variable_ctor_grad_fn d gf st) = Inr v' \<longrightarrow> data v' \<noteq> None"
    using Variable_ctor_grad_fn_data [of d gf st v']
    by (cases "Variable_ctor_grad_fn d gf st") auto
  show ?thesis
    using c1 c2 c3 c4 c5 data_invariant_new_Variable [of st d rg vol v]
      data_invariant_new_output_Variable [of st d gf v']
      data_invariant_Variable_ctor [of d rg vol st]
      data_invariant_Variable_ctor_grad_fn [of d gf st]
      data_invariant_get_grad_accumulator [of this st]
      data_invariant_unpack [of st sv]
      data_invariant_acc_inplace [of st g ng]
      data_invariant_AccumulateGrad_apply [of hook_of st acc grads]
    by simp
qed

text \<open>
  The Variables that the two constructors build on \<open>cpu_tensor\<close> in \<open>hooked_store\<close>, the
  second one on the Function at address 0.
\<close>

definition leaf_copy :: Variable where
  "leaf_copy = blank_Variable\<lparr> data := Some cpu_tensor, version_counter := 3,
                                requires_grad := True \<rparr>"

definition leaf_output :: Variable where
  "leaf_output = blank_Variable\<lparr> data := Some cpu_tensor, grad_fn := Some 0,
                                  version_counter := 3, requires_grad := True,
                                  output_nr := 1 \<rparr>"

theorem constructed_Variable_has_data_witness:
  "data_invariant hooked_store
   \<and> hooks_keep_data replacing_hook
   \<and> fst (Variable_ctor (Some cpu_tensor) True False hooked_store) = Inr leaf_copy
   \<and> data leaf_copy \<noteq> None
   \<and> data_invariant (snd (make_shared_Variable leaf_copy
                              (snd (Variable_ctor (Some cpu_tensor) True False hooked_store))))
   \<and> fst (Variable_ctor_grad_fn (Some cpu_tensor) (Some 0) hooked_store) = Inr leaf_output
   \<and> data leaf_output \<noteq> None
   \<and> data_invariant (snd (make_shared_Variable leaf_output
                              (snd (Variable_ctor_grad_fn (Some cpu_tensor) (Some 0)
                                      hooked_store))))
   \<and> data_invariant (snd (get_grad_accumulator 0 hooked_store))
   \<and> data_invariant (snd (unpack saved_with_data hooked_store))
   \<and> data_invariant (snd (acc_inplace 0 1 hooked_store))
   \<and> fst (AccumulateGrad_apply replacing_hook 0 [Some 1] hooked_store) = Inr []
   \<and> data_invariant (snd (AccumulateGrad_apply replacing_hook 0 [Some 1] hooked_store))"
proof -
  have h1: "data_invariant hooked_store"
    by (simp add: data_invariant_def hooked_store_def grad_store_def empty_store_def
          blank_Variable_def)
  have h2: "hooks_keep_data replacing_hook"
    by (simp add: hooks_keep_data_def replacing_hook_def)
  have k1: "Variable_ctor (Some cpu_tensor) True False hooked_store
              = (Inr leaf_copy, snd (Variable_ctor (Some cpu_tensor) True False hooked_store))"
    by (simp add: Variable_ctor_def new_VariableVersion_def hooked_store_def grad_store_def
          empty_store_def blank_Variable_def leaf_copy_def)
  have k2: "Variable_ctor_grad_fn (Some cpu_tensor) (Some 0) hooked_store
              = (Inr leaf_output,
                 snd (Variable_ctor_grad_fn (Some cpu_tensor) (Some 0) hooked_store))"
    by (simp add: Variable_ctor_grad_fn_def new_VariableVersion_def hooked_store_def
          grad_store_def empty_store_def blank_Variable_def leaf_output_def
          Function_default_def Let_def)
  have k3: "fst (AccumulateGrad_apply replacing_hook 0 [Some 1] hooked_store) = Inr []"
    by (simp add: AccumulateGrad_apply_def grad_store_def hooked_store_def replacing_hook_def
        empty_store_def blank_Variable_def var_lock_def var_expired_def version_value_def
        get_grad_accumulator_def fn_lock_def fn_expired_def Let_def make_shared_Function_def
        Clone_apply_def newTensor_def Variable_ctor_def new_VariableVersion_def
        make_shared_Variable_def release_Function_def elements_def Function_default_def)
  from constructed_Variable_has_data
         [where st = hooked_store and d = "Some cpu_tensor" and rg = True and vol = False
            and gf = "Some 0" and v = leaf_copy and v' = leaf_output and this = 0
            and sv = saved_with_data and g = 0 and ng = 1 and hook_of = replacing_hook
            and acc = 0 and grads = "[Some 1]"]
  show ?thesis
    using h1 h2 k1 k2 k3 by (metis fst_conv)
qed

section \<open>Properties of the engine\<close>

text \<open>An idle engine whose GraphTask drops saved variables, and two tasks.\<close>

definition idle_engine :: "int Engine" where
  "idle_engine = \<lparr> ready_queue = [], graph_task = GraphTask_new False Map.empty, calls = [] \<rparr>"

definition first_task :: "int FunctionTask" where
  "first_task = \<lparr> fn = 1, inputs = [] \<rparr>"

definition second_task :: "int FunctionTask" where
  "second_task = \<lparr> fn = 2, inputs = [] \<rparr>"

lemma ready_queue_pushes:
  "ready_queue (foldl (\<lambda>e t. push_front t e) e ts) = rev ts @ ready_queue e"
  by (induction ts arbitrary: e) (auto simp: push_front_def)

text \<open>
  C4, as stated, fails: \<^verbatim>\<open>push_front\<close> followed by \<^verbatim>\<open>pop_back\<close> is first-in first-out.
  After pushing \<open>first_task\<close> and then \<open>second_task\<close>, \<^verbatim>\<open>pop_back\<close> returns \<open>first_task\<close>,
  not the most recently pushed one.
\<close>

theorem ready_queue_lifo_counterexample:
  "map_option fst (pop_back (push_front second_task (push_front first_task idle_engine)))
     = Some first_task
   \<and> first_task \<noteq> second_task"
  by (simp add: pop_back_def push_front_def idle_engine_def first_task_def second_task_def)

text \<open>
  C4, amended: the ReadyQueue delivers tasks in FIFO order. After any sequence of
  \<^verbatim>\<open>push_front\<close> calls on an empty queue with no interleaved pops, \<^verbatim>\<open>pop_back\<close> returns the
  task that was pushed first and leaves the others queued in the order of their pushes.
\<close>

theorem ready_queue_fifo:
  assumes "ready_queue e = []"
  shows "\<exists>e'. pop_back (foldl (\<lambda>e t. push_front t e) e (t # ts)) = Some (t, e')
           \<and> ready_queue e' = rev ts"
proof -
  have "ready_queue (foldl (\<lambda>e t. push_front t e) e (t # ts)) = rev ts @ [t]"
    using ready_queue_pushes [of e "t # ts"] assms by simp
  then show ?thesis
    by (simp add: pop_back_def)
qed

theorem ready_queue_fifo_witness:
  "ready_queue idle_engine = []
   \<and> (\<exists>e'. pop_back (foldl (\<lambda>e t. push_front t e) idle_engine [first_task, second_task])
              = Some (first_task, e')
          \<and> ready_queue e' = rev [second_task])"
  using ready_queue_fifo [of idle_engine first_task "[second_task]"]
  by (simp add: idle_engine_def)

text \<open>
  A Function with one edge whose \<^verbatim>\<open>apply\<close> returns no output at all.
\<close>

definition one_edge_graph :: "addr \<Rightarrow> Function" where
  "one_edge_graph =
     (\<lambda>_. Function_default)
       (1 := Function_default\<lparr> num_inputs := 1, next_functions := [(Some 2, 0)],
                                is_executable := True \<rparr>)"

definition no_output_dispatch :: "int dispatch" where
  "no_output_dispatch =
     \<lparr> apply_of = (\<lambda>f ins. Inr []), pre_hook_of = (\<lambda>h ins. Inr ins),
       post_hook_of = (\<lambda>h outputs ins. Inr outputs), add_of = (+), zero_of = 0 \<rparr>"

lemma calls_route_output: "calls (snd (route_output d G edge e)) = calls e"
  by (cases edge)
     (auto simp: route_output_def push_front_def Let_def split: option.splits)

lemma calls_route_outputs: "calls (snd (route_outputs d G edges e)) = calls e"
proof (induction edges arbitrary: e)
  case Nil
  show ?case by simp
next
  case (Cons edge rest)
  obtain err e1 where r: "route_output d G edge e = (err, e1)"
    by (cases "route_output d G edge e")
  then have "calls e1 = calls e"
    using calls_route_output [of d G edge e] by simp
  with r Cons.IH [of e1] show ?case
    by (cases err) simp_all
qed

lemma route_output_error:
  "fst (route_output d G edge e) = Some err \<Longrightarrow> \<exists>f. err = DependencyNotFound f"
  by (cases edge)
     (auto simp: route_output_def Let_def split: option.splits if_splits)

lemma route_outputs_error:
  "fst (route_outputs d G edges e) = Some err \<Longrightarrow> \<exists>f. err = DependencyNotFound f"
proof (induction edges arbitrary: e)
  case Nil
  then show ?case by simp
next
  case (Cons edge rest)
  obtain r e1 where r: "route_output d G edge e = (r, e1)"
    by (cases "route_output d G edge e")
  show ?case
  proof (cases r)
    case None
    with r Cons show ?thesis by simp
  next
    case (Some x)
    with r Cons.prems have "x = err" by simp
    with Some r route_output_error [of d G edge e err] show ?thesis by simp
  qed
qed

text \<open>
  C7, as stated, fails: \<^verbatim>\<open>releaseVariables\<close> is called before the number of outputs is
  verified. With \<^verbatim>\<open>keep_graph\<close> false and an \<^verbatim>\<open>apply\<close> that returns no output for one edge,
  the invalid-output-count error is raised after the variables were released.
\<close>

theorem release_after_validation_counterexample:
  "fst (evaluate_function no_output_dispatch one_edge_graph first_task idle_engine)
     = Some (InvalidOutputCount 1 1 0)
   \<and> calls (snd (evaluate_function no_output_dispatch one_edge_graph first_task idle_engine))
     = [Apply 1, ReleaseVariables 1]"
  by (simp add: evaluate_function_def call_function_def no_output_dispatch_def
        one_edge_graph_def first_task_def idle_engine_def GraphTask_new_def
        InputBuffer_variables_def Function_default_def Let_def)

text \<open>
  C7, amended: when \<^verbatim>\<open>call_function\<close> has returned the outputs (\<^verbatim>\<open>apply\<close> and the
  post-hooks ran, or a callback stood in for them), \<^verbatim>\<open>evaluate_function\<close> first calls
  \<^verbatim>\<open>releaseVariables\<close>, exactly when \<^verbatim>\<open>keep_graph\<close> is false, and makes no other call into
  a Function; then it verifies that the number of outputs equals
  \<^verbatim>\<open>next_functions.size()\<close> and raises the invalid-output-count error on a mismatch, and
  only on a mismatch. So the error is raised with the variables already released.
\<close>

theorem release_before_validation:
  assumes "call_function d G task e = (Inr outputs, e1)"
  shows "calls (snd (evaluate_function d G task e))
           = calls e1 @ (if keep_graph (graph_task e) then [] else [ReleaseVariables (fn task)])
    \<and> (length outputs \<noteq> length (next_functions (G (fn task))) \<longrightarrow>
          fst (evaluate_function d G task e)
            = Some (InvalidOutputCount (fn task) (length (next_functions (G (fn task))))
                      (length outputs)))
    \<and> (length outputs = length (next_functions (G (fn task))) \<longrightarrow>
          (\<forall>f n m. fst (evaluate_function d G task e) \<noteq> Some (InvalidOutputCount f n m)))"
proof -
  have gt: "graph_task e1 = graph_task e"
    using call_function_state [of d G task e] assms by simp
  have a: "calls (snd (evaluate_function d G task e))
           = calls e1 @ (if keep_graph (graph_task e) then [] else [ReleaseVariables (fn task)])"
    using assms gt by (simp add: evaluate_function_def Let_def calls_route_outputs)
  have b: "fst (evaluate_function d G task e)
            = Some (InvalidOutputCount (fn task) (length (next_functions (G (fn task))))
                      (length outputs))"
    if "length outputs \<noteq> length (next_functions (G (fn task)))"
    using assms that by (simp add: evaluate_function_def Let_def)
  have c: "fst (evaluate_function d G task e) \<noteq> Some (InvalidOutputCount f n m)"
    if same: "length outputs = length (next_functions (G (fn task)))" for f n m
  proof
    assume "fst (evaluate_function d G task e) = Some (InvalidOutputCount f n m)"
    then obtain e2 where
      "fst (route_outputs d G (zip outputs (next_functions (G (fn task)))) e2)
         = Some (InvalidOutputCount f n m)"
      using assms same by (auto simp: evaluate_function_def Let_def split: if_splits)
    then show False
      using route_outputs_error by fastforce
  qed
  show ?thesis using a b c by blast
qed

theorem release_before_validation_witness:
  "call_function no_output_dispatch one_edge_graph first_task idle_engine
     = (Inr [], idle_engine\<lparr> calls := [Apply 1] \<rparr>)
   \<and> length ([] :: int variable_list) \<noteq> length (next_functions (one_edge_graph (fn first_task)))
   \<and> fst (evaluate_function no_output_dispatch one_edge_graph first_task idle_engine)
       = Some (InvalidOutputCount 1 1 0)
   \<and> calls (snd (evaluate_function no_output_dispatch one_edge_graph first_task idle_engine))
       = [Apply 1, ReleaseVariables 1]"
  using release_before_validation
          [of no_output_dispatch one_edge_graph first_task idle_engine "[]"
              "idle_engine\<lparr> calls := [Apply 1] \<rparr>"]
  by (simp add: call_function_def no_output_dispatch_def one_edge_graph_def first_task_def
        idle_engine_def GraphTask_new_def InputBuffer_variables_def Function_default_def
        Let_def)

text \<open>
  Functions without surprises: \<^verbatim>\<open>apply\<close> returns one gradient per edge and no hook
  throws. With \<open>failing_dispatch\<close>, \<^verbatim>\<open>apply\<close> of the Function 2 throws instead.
\<close>

definition plain_dispatch :: "(addr \<Rightarrow> Function) \<Rightarrow> int dispatch" where
  "plain_dispatch G =
     \<lparr> apply_of = (\<lambda>f ins. Inr (replicate (length (next_functions (G f))) (Some 1))),
       pre_hook_of = (\<lambda>hook ins. Inr ins),
       post_hook_of = (\<lambda>hook outputs ins. Inr outputs), add_of = (+), zero_of = 0 \<rparr>"

definition failing_dispatch :: "(addr \<Rightarrow> Function) \<Rightarrow> int dispatch" where
  "failing_dispatch G =
     \<lparr> apply_of = (\<lambda>f ins. if f = 2 then Inl (UserError 0)
                            else Inr (replicate (length (next_functions (G f))) (Some 1))),
       pre_hook_of = (\<lambda>hook ins. Inr ins),
       post_hook_of = (\<lambda>hook outputs ins. Inr outputs), add_of = (+), zero_of = 0 \<rparr>"

text \<open>
  Four small graphs. In \<open>chain_graph\<close> the Function 1 has an edge to the Function 2, which
  has an edge to the Function 3; \<open>stochastic_root_graph\<close> is the same chain with a
  stochastic Function 2. In \<open>diamond_graph\<close> the Function 1 has edges to the Functions 2
  and 3 and a null edge, and the Function 2 has an edge to the Function 3. In
  \<open>fork_graph\<close> the Function 1 has edges to the Functions 2 and 3. Every Function is
  executable.
\<close>

definition chain_graph :: "addr \<Rightarrow> Function" where
  "chain_graph =
     (\<lambda>_. Function_default)
       (1 := Function_default\<lparr> num_inputs := 1, next_functions := [(Some 2, 0)],
                                is_executable := True \<rparr>,
        2 := Function_default\<lparr> num_inputs := 1, next_functions := [(Some 3, 0)],
                                is_executable := True \<rparr>,
        3 := Function_default\<lparr> num_inputs := 1, is_executable := True \<rparr>)"

definition stochastic_root_graph :: "addr \<Rightarrow> Function" where
  "stochastic_root_graph =
     (\<lambda>_. Function_default)
       (1 := Function_default\<lparr> num_inputs := 1, next_functions := [(Some 2, 0)],
                                is_executable := True \<rparr>,
        2 := Function_default\<lparr> num_inputs := 1, next_functions := [(Some 3, 0)],
                                is_executable := True, is_stochastic := True \<rparr>,
        3 := Function_default\<lparr> num_inputs := 1, is_executable := True \<rparr>)"

definition diamond_graph :: "addr \<Rightarrow> Function" where
  "diamond_graph =
     (\<lambda>_. Function_default)
       (1 := Function_default\<lparr> num_inputs := 1,
                                next_functions := [(Some 2, 0), (None, 0), (Some 3, 0)],
                                is_executable := True \<rparr>,
        2 := Function_default\<lparr> num_inputs := 1, next_functions := [(Some 3, 1)],
                                is_executable := True \<rparr>,
        3 := Function_default\<lparr> num_inputs := 2, is_executable := True \<rparr>)"

definition fork_graph :: "addr \<Rightarrow> Function" where
  "fork_graph =
     (\<lambda>_. Function_default)
       (1 := Function_default\<lparr> num_inputs := 1,
                                next_functions := [(Some 2, 0), (Some 3, 0)],
                                is_executable := True \<rparr>,
        2 := Function_default\<lparr> num_inputs := 1, is_executable := True \<rparr>,
        3 := Function_default\<lparr> num_inputs := 1, is_executable := True \<rparr>)"

text \<open>
  A callback map whose callback for the Function 1 returns false, and an engine that has
  captured an error while the task of the Function 1 is still queued.
\<close>

definition rejecting_callbacks :: "int callback_map" where
  "rejecting_callbacks = [1 \<mapsto> (\<lambda>f ins. False)]"

definition errored_engine :: "int Engine" where
  "errored_engine =
     idle_engine\<lparr> ready_queue := [first_task],
                  graph_task := (graph_task idle_engine)\<lparr>
                    exception := Some (UserError 0), has_error := True,
                    outstanding_tasks := 1 \<rparr> \<rparr>"

text \<open>
  How often an execute invoked \<^verbatim>\<open>apply\<close> of the Function \<open>f\<close>.
\<close>

definition times_applied :: "addr \<Rightarrow> (error option \<times> 'v Engine) option \<Rightarrow> nat" where
  "times_applied f result =
     (case result of None \<Rightarrow> 0 | Some (err, e) \<Rightarrow> count_list (calls e) (Apply f))"

lemma reach_plus_diamond: "reach_plus diamond_graph {1} = {2, 3}"
proof
  show "reach_plus diamond_graph {1} \<subseteq> {2, 3}"
  proof
    fix x assume "x \<in> reach_plus diamond_graph {1}"
    then show "x \<in> {2, 3}"
      by (induction rule: reach_plus.induct)
         (auto simp: diamond_graph_def Function_default_def split: if_splits)
  qed
  have "2 \<in> reach_plus diamond_graph {1}" "3 \<in> reach_plus diamond_graph {1}"
    by (rule reach_plus.first [where s = 1 and nr = 0]; simp add: diamond_graph_def)+
  then show "{2, 3} \<subseteq> reach_plus diamond_graph {1}" by simp
qed

lemma applied_functions_diamond: "applied_functions diamond_graph {1} = {1, 2, 3}"
proof -
  have F: "{1} \<union> {t \<in> reach_plus diamond_graph {1}. runs_unasked diamond_graph t} = {1}"
    by (auto simp: reach_plus_diamond runs_unasked_def diamond_graph_def Function_default_def)
  have sub: "x \<in> {1, 2, 3}" if "x \<in> dep_reach diamond_graph {1}" for x
    using that
    by (induction rule: dep_reach.induct)
       (auto simp: diamond_graph_def Function_default_def split: if_splits)
  have r1: "1 \<in> dep_reach diamond_graph {1}" by (rule dep_reach.frontier) simp
  then have r2: "2 \<in> dep_reach diamond_graph {1}"
    by (rule dep_reach.edge [where nr = 0])
       (simp_all add: diamond_graph_def counted_def Function_default_def)
  from r1 have r3: "3 \<in> dep_reach diamond_graph {1}"
    by (rule dep_reach.edge [where nr = 0])
       (simp_all add: diamond_graph_def counted_def Function_default_def)
  have "dep_reach diamond_graph {1} = {1, 2, 3}"
    using sub r1 r2 r3 by auto
  then show ?thesis
    unfolding applied_functions_def F
    by (auto simp: diamond_graph_def)
qed

lemma reach_plus_fork: "reach_plus fork_graph {1} = {2, 3}"
proof
  show "reach_plus fork_graph {1} \<subseteq> {2, 3}"
  proof
    fix x assume "x \<in> reach_plus fork_graph {1}"
    then show "x \<in> {2, 3}"
      by (induction rule: reach_plus.induct)
         (auto simp: fork_graph_def Function_default_def split: if_splits)
  qed
  have "2 \<in> reach_plus fork_graph {1}" "3 \<in> reach_plus fork_graph {1}"
    by (rule reach_plus.first [where s = 1 and nr = 0]; simp add: fork_graph_def)+
  then show "{2, 3} \<subseteq> reach_plus fork_graph {1}" by simp
qed

lemma applied_functions_fork: "applied_functions fork_graph {1} = {1, 2, 3}"
proof -
  have F: "{1} \<union> {t \<in> reach_plus fork_graph {1}. runs_unasked fork_graph t} = {1}"
    by (auto simp: reach_plus_fork runs_unasked_def fork_graph_def Function_default_def)
  have sub: "x \<in> {1, 2, 3}" if "x \<in> dep_reach fork_graph {1}" for x
    using that
    by (induction rule: dep_reach.induct)
       (auto simp: fork_graph_def Function_default_def split: if_splits)
  have r1: "1 \<in> dep_reach fork_graph {1}" by (rule dep_reach.frontier) simp
  then have r2: "2 \<in> dep_reach fork_graph {1}"
    by (rule dep_reach.edge [where nr = 0])
       (simp_all add: fork_graph_def counted_def Function_default_def)
  from r1 have r3: "3 \<in> dep_reach fork_graph {1}"
    by (rule dep_reach.edge [where nr = 0])
       (simp_all add: fork_graph_def counted_def Function_default_def)
  have "dep_reach fork_graph {1} = {1, 2, 3}"
    using sub r1 r2 r3 by auto
  then show ?thesis
    unfolding applied_functions_def F
    by (auto simp: fork_graph_def)
qed


text \<open>
  When a root can be reached from another root, the engine queues it twice: \<^verbatim>\<open>find_roots\<close>
  queues it as a root, \<^verbatim>\<open>compute_dependencies\<close> counts the edges that point at it all the
  same, and \<^verbatim>\<open>evaluate_function\<close> queues it again when that count reaches zero. On
  \<open>chain_graph\<close> with the roots 1 and 2, \<^verbatim>\<open>apply\<close> of the Function 2 is invoked twice, and
  its second evaluation finds no dependency entry for the Function 3 any more: the
  execute ends with the error \<^verbatim>\<open>dependency not found\<close>. The theorem below is about
  executes without such a root.
\<close>

lemma root_below_root_applied_twice:
  "map_option fst
     (execute (plain_dispatch chain_graph) chain_graph [(1, 0), (2, 0)] [Some 1, Some 1] True
        Map.empty) = Some (Some (DependencyNotFound 3))
   \<and> map_option (\<lambda>r. applied (calls (snd r)))
       (execute (plain_dispatch chain_graph) chain_graph [(1, 0), (2, 0)] [Some 1, Some 1] True
          Map.empty) = Some [1, 2, 2]"
  by code_simp



lemma dep_reach_stochastic_root: "dep_reach stochastic_root_graph {1, 2} = {1, 2, 3}"
proof
  show "dep_reach stochastic_root_graph {1, 2} \<subseteq> {1, 2, 3}"
  proof
    fix x assume "x \<in> dep_reach stochastic_root_graph {1, 2}"
    then show "x \<in> {1, 2, 3}"
      by (induction rule: dep_reach.induct)
         (auto simp: stochastic_root_graph_def Function_default_def split: if_splits)
  qed
  have "2 \<in> dep_reach stochastic_root_graph {1, 2}" by (rule dep_reach.frontier) simp
  then have "3 \<in> dep_reach stochastic_root_graph {1, 2}"
    by (rule dep_reach.edge [where nr = 0])
       (simp_all add: stochastic_root_graph_def counted_def Function_default_def)
  then show "{1, 2, 3} \<subseteq> dep_reach stochastic_root_graph {1, 2}"
    by (auto intro: dep_reach.frontier)
qed

text \<open>
  C3 on the roots 1 and 2 of \<open>stochastic_root_graph\<close>: the stochastic Function 2 is a root
  and is discovered again from the root 1, so \<^verbatim>\<open>find_stochastic_functions\<close> hands the
  frontier 1, 2, 2 to \<^verbatim>\<open>compute_dependencies\<close>, which counts the single edge that points
  at the Function 3 twice.
\<close>

theorem dependencies_counted_twice:
  "map_option fst
     (find_stochastic_functions stochastic_root_graph
        (fst (find_roots (plain_dispatch stochastic_root_graph) stochastic_root_graph
                [(1, 0), (2, 0)] [Some 1, Some 1] idle_engine))
        (snd (find_roots (plain_dispatch stochastic_root_graph) stochastic_root_graph
                [(1, 0), (2, 0)] [Some 1, Some 1] idle_engine)))
     = Some [1, 2, 2]
   \<and> map_option dependencies
       (compute_dependencies stochastic_root_graph [1, 2, 2] (graph_task idle_engine))
     = Some [(3, 2)]
   \<and> in_count stochastic_root_graph (dep_reach stochastic_root_graph {1, 2}) 3 = 1"
proof -
  have a: "map_option fst
     (find_stochastic_functions stochastic_root_graph
        (fst (find_roots (plain_dispatch stochastic_root_graph) stochastic_root_graph
                [(1, 0), (2, 0)] [Some 1, Some 1] idle_engine))
        (snd (find_roots (plain_dispatch stochastic_root_graph) stochastic_root_graph
                [(1, 0), (2, 0)] [Some 1, Some 1] idle_engine)))
     = Some [1, 2, 2]"
    by code_simp
  have b: "map_option dependencies
       (compute_dependencies stochastic_root_graph [1, 2, 2] (graph_task idle_engine))
     = Some [(3, 2)]"
    by code_simp
  have s: "{s \<in> {1, 2, 3}. is_executable (stochastic_root_graph s)} = {1, 2, 3}"
    by (auto simp: stochastic_root_graph_def)
  have c: "in_count stochastic_root_graph (dep_reach stochastic_root_graph {1, 2}) 3 = 1"
    unfolding dep_reach_stochastic_root in_count_def s
    by (simp add: stochastic_root_graph_def counted_def Function_default_def)
  show ?thesis using a b c by simp
qed

end
